theory Spec2Isabelle
  imports Main "HOL-Library.Word"
begin

section \<open>Data model of pkg/apis/apps/v1/helper\<close>

text \<open>
  Go's \<open>int32\<close> is a 32-bit word read in two's complement: \<open>+\<close> wraps around and the
  comparisons of the source are the signed ones (\<open><s\<close>, \<open>\<le>s\<close>). A \<open>sets.Int32\<close> is a
  set of such words; a nil set and an empty set are both \<open>{}\<close>.
\<close>

type_synonym int32 = "32 word"

text \<open>
  \<open>metav1.Object\<close> is used through \<open>GetAnnotations\<close> and \<open>SetAnnotations\<close> only. The
  annotation bag is a Go map that may be nil: \<open>None\<close> is the nil map.
\<close>

record Object =
  annotations :: "(string \<rightharpoonup> string) option"

definition DeleteSlotsAnn :: string where
  "DeleteSlotsAnn = ''delete-slots''"

text \<open>
  \<open>sets.Int32.List\<close> returns the members as a slice sorted ascending by their signed value.
\<close>

definition List_Int32 :: "int32 set \<Rightarrow> int32 list" where
  "List_Int32 s = map word_of_int (sorted_list_of_set (sint ` s))"

subsection \<open>Reservation store accessor\<close>

text \<open>
  \<open>json.Unmarshal\<close> and \<open>json.Marshal\<close> belong to Go's standard library, not to this
  repository: the accessor takes them as parameters \<open>unmarshal\<close> and \<open>marshal\<close>,
  with \<open>Inl\<close> the error they return.
\<close>

definition GetDeleteSlots :: "(string \<Rightarrow> 'e + int32 list) \<Rightarrow> 'a Object_scheme \<Rightarrow> int32 set" where
  "GetDeleteSlots unmarshal obj =
     (case annotations obj of
        None \<Rightarrow> {}
      | Some anns \<Rightarrow>
          (case anns DeleteSlotsAnn of
             None \<Rightarrow> {}
           | Some v \<Rightarrow>
               (case unmarshal v of
                  Inl err \<Rightarrow> {}
                | Inr vs \<Rightarrow> set vs)))"

text \<open>
  \<open>SetDeleteSlots\<close> returns the error (\<open>None\<close> is Go's nil error) and the object as it
  is after the call. \<open>delete\<close> on a nil map does nothing and leaves it nil.
\<close>

definition SetDeleteSlots ::
  "(int32 list \<Rightarrow> 'e + string) \<Rightarrow> 'a Object_scheme \<Rightarrow> int32 set \<Rightarrow> 'e option \<times> 'a Object_scheme" where
  "SetDeleteSlots marshal obj deleteSlots =
     (if deleteSlots = {} then
        (None, obj\<lparr>annotations :=
                 (case annotations obj of
                    None \<Rightarrow> None
                  | Some anns \<Rightarrow> Some (anns(DeleteSlotsAnn := None)))\<rparr>)
      else
        (case marshal (List_Int32 deleteSlots) of
           Inl err \<Rightarrow> (Some err, obj)
         | Inr b \<Rightarrow>
             (None, obj\<lparr>annotations :=
                      Some ((case annotations obj of None \<Rightarrow> Map.empty | Some anns \<Rightarrow> anns)
                            (DeleteSlotsAnn \<mapsto> b))\<rparr>)))"

definition AddDeleteSlots ::
  "(int32 list \<Rightarrow> 'e + string) \<Rightarrow> (string \<Rightarrow> 'e + int32 list) \<Rightarrow> 'a Object_scheme \<Rightarrow> int32 set
     \<Rightarrow> 'e option \<times> 'a Object_scheme" where
  "AddDeleteSlots marshal unmarshal obj deleteSlots =
     SetDeleteSlots marshal obj (GetDeleteSlots unmarshal obj \<union> deleteSlots)"

subsection \<open>Ordinal allocator\<close>

text \<open>
  The second loop of \<open>GetMaxReplicaCountAndDeleteSlots\<close> walks the snapshot
  \<open>deleteSlotsCopy.List()\<close> taken before the loop, while it deletes from \<open>deleteSlotsCopy\<close>.
  The state is the pair \<open>(replicaCount, deleteSlotsCopy)\<close>.
\<close>

fun scanDeleteSlots :: "int32 list \<Rightarrow> int32 \<times> int32 set \<Rightarrow> int32 \<times> int32 set" where
  "scanDeleteSlots [] st = st"
| "scanDeleteSlots (deleteSlot # rest) (replicaCount, deleteSlotsCopy) =
     (if deleteSlot <s replicaCount
      then scanDeleteSlots rest (replicaCount + 1, deleteSlotsCopy)
      else scanDeleteSlots rest (replicaCount, deleteSlotsCopy - {deleteSlot}))"

text \<open>The first loop copies \<open>deleteSlots\<close> member by member into a fresh set: the same set.\<close>

definition GetMaxReplicaCountAndDeleteSlots :: "int32 \<Rightarrow> int32 set \<Rightarrow> int32 \<times> int32 set" where
  "GetMaxReplicaCountAndDeleteSlots replicas deleteSlots =
     scanDeleteSlots (List_Int32 deleteSlots) (replicas, deleteSlots)"

text \<open>The loop \<open>for i := int32(0); i < maxReplicaCount; i++\<close> with its accumulator.\<close>

function podOrdinalsLoop :: "int32 \<Rightarrow> int32 \<Rightarrow> int32 set \<Rightarrow> int32 set \<Rightarrow> int32 set" where
  "podOrdinalsLoop i maxReplicaCount deleteSlots podOrdinals =
     (if i <s maxReplicaCount
      then podOrdinalsLoop (i + 1) maxReplicaCount deleteSlots
             (if i \<notin> deleteSlots then insert i podOrdinals else podOrdinals)
      else podOrdinals)"
  by pat_completeness auto
termination
proof (relation "measure (\<lambda>(i, m, ds, acc). nat (sint m - sint i))")
  show "wf (measure (\<lambda>(i, m, ds, acc). nat (sint m - sint i)))"
    by simp
next
  fix i maxReplicaCount :: int32 and deleteSlots podOrdinals :: "int32 set"
  assume lt: "i <s maxReplicaCount"
  have "sint i < sint maxReplicaCount"
    using lt by (simp add: word_sless_alt)
  moreover have "sint maxReplicaCount < 2 ^ 31"
    using sint_lt [of maxReplicaCount] by simp
  ultimately have "sint i + 1 < 2 ^ 31"
    by simp
  moreover have "- (2 ^ 31) \<le> sint i"
    using sint_ge [of i] by simp
  moreover have "i + 1 = word_of_int (sint i + 1)"
    by simp
  ultimately have "sint (i + 1) = sint i + 1"
    by (simp only: sint_sbintrunc') (simp add: signed_take_bit_int_eq_self)
  with \<open>sint i < sint maxReplicaCount\<close>
  show "((i + 1, maxReplicaCount, deleteSlots,
          if i \<notin> deleteSlots then insert i podOrdinals else podOrdinals),
         i, maxReplicaCount, deleteSlots, podOrdinals)
        \<in> measure (\<lambda>(i, m, ds, acc). nat (sint m - sint i))"
    by simp
qed

definition GetPodOrdinalsFromReplicasAndDeleteSlots :: "int32 \<Rightarrow> int32 set \<Rightarrow> int32 set" where
  "GetPodOrdinalsFromReplicasAndDeleteSlots replicas deleteSlots =
     (case GetMaxReplicaCountAndDeleteSlots replicas deleteSlots of
        (maxReplicaCount, deleteSlots') \<Rightarrow> podOrdinalsLoop 0 maxReplicaCount deleteSlots' {})"

definition GetPodOrdinals :: "(string \<Rightarrow> 'e + int32 list) \<Rightarrow> int32 \<Rightarrow> 'a Object_scheme \<Rightarrow> int32 set" where
  "GetPodOrdinals unmarshal replicas obj =
     GetPodOrdinalsFromReplicasAndDeleteSlots replicas (GetDeleteSlots unmarshal obj)"

text \<open>
  \<open>GetMaxPodOrdinal\<close> and \<open>GetMinPodOrdinal\<close> range over a Go map, whose order is not
  fixed. The loop body is folded over the members in ascending order here;
  \<open>maxLoop_order\<close> and \<open>minLoop_order\<close> below show that no other order gives another result.
\<close>

definition maxStep :: "int32 \<Rightarrow> int32 \<Rightarrow> int32" where
  "maxStep k mx = (if mx <s k then k else mx)"

definition minStep :: "int32 \<Rightarrow> int32 \<Rightarrow> int32" where
  "minStep k mn = (if k <s mn then k else mn)"

definition GetMaxPodOrdinal :: "(string \<Rightarrow> 'e + int32 list) \<Rightarrow> int32 \<Rightarrow> 'a Object_scheme \<Rightarrow> int32" where
  "GetMaxPodOrdinal unmarshal replicas obj =
     fold maxStep (List_Int32 (GetPodOrdinals unmarshal replicas obj)) (- 1)"

definition GetMinPodOrdinal :: "(string \<Rightarrow> 'e + int32 list) \<Rightarrow> int32 \<Rightarrow> 'a Object_scheme \<Rightarrow> int32" where
  "GetMinPodOrdinal unmarshal replicas obj =
     fold minStep (List_Int32 (GetPodOrdinals unmarshal replicas obj)) 2147483647"

text \<open>
  The loop of \<open>CalculateScaleOutPodOrdinal\<close>. Its counter \<open>i\<close> is a Go \<open>int\<close>, 64 bits
  wide on the platforms the controller is built for; \<open>int32(i)\<close> keeps its low 32 bits.
  \<open>n\<close> is \<open>int(targetReplicas-currentReplicas)\<close> and \<open>Len()\<close> is the number of members.
  Nothing in the source bounds the loop, so the model is a partial function: \<open>None\<close> is
  a loop that never ends. It returns the counter together with the set, so that the
  number of iterations can be read off the result.
\<close>

partial_function (option) scaleOutLoop ::
  "int32 \<Rightarrow> int32 set \<Rightarrow> int \<Rightarrow> 64 word \<Rightarrow> int32 set \<Rightarrow> (64 word \<times> int32 set) option" where
  "scaleOutLoop maxOrdinal slots n i expectedOrdinalSets =
     (if int (card expectedOrdinalSets) < n
      then scaleOutLoop maxOrdinal slots n (i + 1)
             (if maxOrdinal + ucast i \<notin> slots
              then insert (maxOrdinal + ucast i) expectedOrdinalSets
              else expectedOrdinalSets)
      else Some (i, expectedOrdinalSets))"

declare scaleOutLoop.simps [code]

definition CalculateScaleOutPodOrdinal ::
  "(string \<Rightarrow> 'e + int32 list) \<Rightarrow> int32 \<Rightarrow> int32 \<Rightarrow> 'a Object_scheme \<Rightarrow> int32 set option" where
  "CalculateScaleOutPodOrdinal unmarshal currentReplicas targetReplicas obj =
     (if targetReplicas \<le>s currentReplicas then Some {}
      else map_option snd
             (scaleOutLoop (GetMaxPodOrdinal unmarshal currentReplicas obj)
                (GetDeleteSlots unmarshal obj)
                (sint (targetReplicas - currentReplicas)) 1 {}))"

text \<open>
  The loop invariant of \<open>scaleOutLoop\<close>: after \<open>k\<close> iterations the counter is \<open>k + 1\<close> and
  the set holds those of the candidates \<open>maxOrdinal + 1, \<dots>, maxOrdinal + k\<close> that are not
  reserved.
\<close>

abbreviation handedOut :: "int32 \<Rightarrow> int32 set \<Rightarrow> nat \<Rightarrow> int32 set" where
  "handedOut maxOrdinal slots k \<equiv> (\<lambda>j. maxOrdinal + of_nat j) ` {1..k} - slots"

subsection \<open>The boundary scan in the words of the specification\<close>

text \<open>
  The specification's \<open>resolveBoundaryAndConsumed\<close> and \<open>activeOrdinals\<close>, written from its
  prose and not from the code, over the integers: start with \<open>boundary = desiredCardinality\<close>
  and every reservation in the consumed set, then visit the reservations in strictly ascending
  order; a reservation \<open>r < boundary\<close> increments the boundary by one and stays consumed, any
  other is dropped from the consumed set. The boundary only ever grows. The reservation set is
  given by the list \<open>ascending\<close> of its members in visiting order. The active ordinals are
  \<open>{0 .. boundary - 1}\<close> without the consumed reservations.
\<close>

definition resolveStep :: "int \<times> int set \<Rightarrow> int \<Rightarrow> int \<times> int set" where
  "resolveStep st r =
     (case st of (boundary, consumed) \<Rightarrow>
        if r < boundary then (boundary + 1, consumed) else (boundary, consumed - {r}))"

definition resolveBoundaryAndConsumed :: "int \<Rightarrow> int list \<Rightarrow> int \<times> int set" where
  "resolveBoundaryAndConsumed desiredCardinality ascending =
     foldl resolveStep (desiredCardinality, set ascending) ascending"

definition activeOrdinals :: "int \<Rightarrow> int list \<Rightarrow> int set" where
  "activeOrdinals desiredCardinality ascending =
     (case resolveBoundaryAndConsumed desiredCardinality ascending of
        (boundary, consumed) \<Rightarrow> {0..<boundary} - consumed)"

subsection \<open>The annotation value as JSON text\<close>

text \<open>
  Modelled from the spec: the value stored under the annotation key is "a JSON array of signed
  32-bit integers", and a value that is "not a well-formed JSON array of integers" counts as
  no reservations. Go's \<open>encoding/json\<close>, which the accessor calls to write and read that
  text, is not among the sources. \<open>isIntegerArray\<close> recognises the well-formed arrays:
  decimal integers with an optional minus sign and no leading zeros, separated by commas, in
  square brackets, with optional white space around brackets, commas and numbers.

  \<open>jsonMarshal\<close> and \<open>jsonUnmarshal\<close> stand for \<open>json.Marshal\<close> of a \<open>[]int32\<close> and
  \<open>json.Unmarshal\<close> into one, where a statement about the accessor needs concrete annotation
  text. On integer arrays they write and read the format above, with integers outside the
  \<open>int32\<close> range an error. As \<open>encoding/json\<close> documents, a JSON \<open>null\<close> is no error and
  has no effect on the value it is decoded into: a \<open>null\<close> element leaves the element of the
  slice at \<open>0\<close>, and the text \<open>null\<close> leaves the slice nil. Any other text is an error.
\<close>

datatype json_error = SyntaxError | RangeError

function showDecimal :: "int \<Rightarrow> string" where
  "showDecimal n =
     (if n < 10 then [char_of (48 + n)] else showDecimal (n div 10) @ [char_of (48 + n mod 10)])"
  by pat_completeness auto
termination
  by (relation "measure nat") auto

definition showInt32 :: "int32 \<Rightarrow> string" where
  "showInt32 w = (if sint w < 0 then CHR ''-'' # showDecimal (- sint w) else showDecimal (sint w))"

fun joinComma :: "string list \<Rightarrow> string" where
  "joinComma [] = []"
| "joinComma [x] = x"
| "joinComma (x # y # rest) = x @ CHR '','' # joinComma (y # rest)"

definition jsonMarshal :: "int32 list \<Rightarrow> json_error + string" where
  "jsonMarshal xs = Inr (CHR ''['' # joinComma (map showInt32 xs) @ '']'')"

definition isSpace :: "char \<Rightarrow> bool" where
  "isSpace c = (c = CHR '' '' \<or> c = CHR 0x09 \<or> c = CHR 0x0A \<or> c = CHR 0x0D)"

definition isDigit :: "char \<Rightarrow> bool" where
  "isDigit c = (48 \<le> (of_char c :: int) \<and> (of_char c :: int) \<le> 57)"

definition trim :: "string \<Rightarrow> string" where
  "trim s = rev (dropWhile isSpace (rev (dropWhile isSpace s)))"

fun splitComma :: "string \<Rightarrow> string list" where
  "splitComma [] = [[]]"
| "splitComma (c # cs) =
     (if c = CHR '','' then [] # splitComma cs
      else (case splitComma cs of [] \<Rightarrow> [[c]] | f # fs \<Rightarrow> (c # f) # fs))"

definition readDecimal :: "string \<Rightarrow> int" where
  "readDecimal ds = foldl (\<lambda>a c. 10 * a + (of_char c - 48)) 0 ds"

definition parseInt32 :: "string \<Rightarrow> json_error + int32" where
  "parseInt32 s =
     (let neg = (s \<noteq> [] \<and> hd s = CHR ''-'');
          ds = (if neg then tl s else s);
          v = (if neg then - readDecimal ds else readDecimal ds)
      in if ds = [] \<or> \<not> list_all isDigit ds \<or> (1 < length ds \<and> hd ds = CHR ''0'')
         then Inl SyntaxError
         else if v < - 2147483648 \<or> 2147483647 < v then Inl RangeError
         else Inr (word_of_int v))"

definition parseElement :: "string \<Rightarrow> json_error + int32" where
  "parseElement s = (if s = ''null'' then Inr 0 else parseInt32 s)"

fun parseAll :: "string list \<Rightarrow> json_error + int32 list" where
  "parseAll [] = Inr []"
| "parseAll (f # fs) =
     (case parseElement (trim f) of
        Inl e \<Rightarrow> Inl e
      | Inr v \<Rightarrow> (case parseAll fs of Inl e \<Rightarrow> Inl e | Inr vs \<Rightarrow> Inr (v # vs)))"

definition jsonUnmarshal :: "string \<Rightarrow> json_error + int32 list" where
  "jsonUnmarshal s =
     (let t = trim s in
      if t = ''null'' then Inr []
      else if t = [] \<or> hd t \<noteq> CHR ''['' \<or> last t \<noteq> CHR '']'' \<or> length t < 2
      then Inl SyntaxError
      else let inner = butlast (tl t) in
           if trim inner = [] then Inr [] else parseAll (splitComma inner))"



section \<open>Signed 32-bit arithmetic\<close>

lemma sint32_range: "- 2147483648 \<le> sint (w :: int32) \<and> sint w < 2147483648"
  using sint_ge [of w] sint_lt [of w] by simp

lemma sint32_of_int:
  "- 2147483648 \<le> k \<Longrightarrow> k < 2147483648 \<Longrightarrow> sint (word_of_int k :: int32) = k"
  by (simp add: sint_sbintrunc' signed_take_bit_int_eq_self)

lemma sint32_add_nat:
  assumes "sint (w :: int32) + int n < 2147483648"
  shows "sint (w + of_nat n) = sint w + int n"
proof -
  have eq: "w + of_nat n = word_of_int (sint w + int n)"
    by simp
  have "- 2147483648 \<le> sint w + int n"
    using sint32_range [of w] by simp
  then have "sint (word_of_int (sint w + int n) :: int32) = sint w + int n"
    using assms by (rule sint32_of_int)
  then show ?thesis
    by (simp only: eq)
qed

lemma sint32_inj: "sint (a :: int32) = sint b \<longleftrightarrow> a = b"
proof
  assume "sint a = sint b"
  then have "(word_of_int (sint a) :: int32) = word_of_int (sint b)"
    by simp
  then show "a = b"
    by simp
qed simp

lemma sint32_inc: "(a :: int32) <s b \<Longrightarrow> sint (a + 1) = sint a + 1"
  using sint32_add_nat [of a 1] sint32_range [of b] by (simp add: word_sless_alt)

section \<open>The sorted snapshot of a set\<close>

lemma map_sint_List_Int32: "map sint (List_Int32 s) = sorted_list_of_set (sint ` s)"
proof -
  have "map (sint \<circ> (word_of_int :: int \<Rightarrow> int32)) (sorted_list_of_set (sint ` s))
          = sorted_list_of_set (sint ` s)"
  proof (rule map_idI)
    fix k
    assume "k \<in> set (sorted_list_of_set (sint ` s))"
    then have "k \<in> sint ` s"
      by simp
    then show "(sint \<circ> (word_of_int :: int \<Rightarrow> int32)) k = k"
      by auto
  qed
  then show ?thesis
    by (simp add: List_Int32_def)
qed

lemma set_List_Int32: "set (List_Int32 s) = s"
  by (simp add: List_Int32_def image_image)

lemma sorted_List_Int32: "sorted_wrt (<s) (List_Int32 s)"
proof -
  have "sorted_wrt (<) (map sint (List_Int32 s))"
    by (simp only: map_sint_List_Int32 strict_sorted_list_of_set)
  moreover have "(<s) = (\<lambda>x y :: int32. sint x < sint y)"
    by (intro ext) (simp add: word_sless_alt)
  ultimately show ?thesis
    by (simp add: sorted_wrt_map)
qed

lemma distinct_List_Int32: "distinct (List_Int32 s)"
  using sorted_List_Int32 [of s] signed.strict_sorted_iff by blast

lemma length_List_Int32: "length (List_Int32 s) = card s"
  using distinct_card [OF distinct_List_Int32, of s] by (simp add: set_List_Int32)

lemma List_Int32_unique: "sorted_wrt (<s) xs \<Longrightarrow> set xs = s \<Longrightarrow> List_Int32 s = xs"
  using signed.strict_sorted_equal [of xs "List_Int32 s"] sorted_List_Int32 [of s]
  by (simp add: set_List_Int32)


section \<open>The scan of GetMaxReplicaCountAndDeleteSlots\<close>

lemma scan_all_dropped:
  "\<forall>k\<in>set ks. rc \<le>s k \<Longrightarrow> scanDeleteSlots ks (rc, C) = (rc, C - set ks)"
proof (induction ks arbitrary: C)
  case Nil
  then show ?case by simp
next
  case (Cons k ks)
  from Cons.prems have "\<not> k <s rc"
    by (simp add: signed.not_less)
  moreover from Cons.prems have "scanDeleteSlots ks (rc, C - {k}) = (rc, C - {k} - set ks)"
    by (intro Cons.IH) simp
  ultimately show ?case
    by auto
qed

lemma scan_run:
  "n \<le> length ks \<Longrightarrow> (\<forall>i<n. ks ! i <s rc + of_nat i)
     \<Longrightarrow> (\<forall>k\<in>set (drop n ks). rc + of_nat n \<le>s k)
     \<Longrightarrow> scanDeleteSlots ks (rc, C) = (rc + of_nat n, C - set (drop n ks))"
proof (induction ks arbitrary: n rc)
  case Nil
  then show ?case by simp
next
  case (Cons k ks)
  show ?case
  proof (cases n)
    case 0
    with Cons.prems show ?thesis
      using scan_all_dropped [of "k # ks" rc C] by simp
  next
    case (Suc m)
    from Cons.prems Suc have k: "k <s rc"
      by auto
    have "scanDeleteSlots ks (rc + 1, C) = (rc + 1 + of_nat m, C - set (drop m ks))"
    proof (rule Cons.IH)
      show "m \<le> length ks"
        using Cons.prems Suc by simp
      show "\<forall>i<m. ks ! i <s rc + 1 + of_nat i"
      proof (intro allI impI)
        fix i
        assume "i < m"
        then have "(k # ks) ! Suc i <s rc + of_nat (Suc i)"
          using Cons.prems(2) Suc by blast
        then show "ks ! i <s rc + 1 + of_nat i"
          by (simp add: add.assoc)
      qed
      show "\<forall>k\<in>set (drop m ks). rc + 1 + of_nat m \<le>s k"
        using Cons.prems(3) Suc by (simp add: add.assoc)
    qed
    with k Suc show ?thesis
      by (simp add: add.assoc)
  qed
qed

lemma scan_shape:
  "sorted_wrt (<s) ks \<Longrightarrow>
     \<exists>n\<le>length ks. (\<forall>i<n. ks ! i <s rc + of_nat i) \<and> (\<forall>k\<in>set (drop n ks). rc + of_nat n \<le>s k)"
proof (induction ks arbitrary: rc)
  case Nil
  then show ?case by simp
next
  case (Cons k ks)
  show ?case
  proof (cases "k <s rc")
    case True
    from Cons.prems have "sorted_wrt (<s) ks"
      by simp
    from Cons.IH [OF this, of "rc + 1"] obtain m where m: "m \<le> length ks"
      "\<forall>i<m. ks ! i <s rc + 1 + of_nat i" "\<forall>k\<in>set (drop m ks). rc + 1 + of_nat m \<le>s k"
      by blast
    have "\<forall>i<Suc m. (k # ks) ! i <s rc + of_nat i"
    proof (intro allI impI)
      fix i
      assume "i < Suc m"
      then show "(k # ks) ! i <s rc + of_nat i"
        using True m(2) by (cases i) (simp_all add: add.assoc)
    qed
    moreover have "\<forall>x\<in>set (drop (Suc m) (k # ks)). rc + of_nat (Suc m) \<le>s x"
      using m(3) by (simp add: add.assoc)
    ultimately show ?thesis
      using m(1) by (intro exI [of _ "Suc m"]) simp
  next
    case False
    then have "rc \<le>s k"
      by (simp add: signed.not_less)
    moreover from Cons.prems have "\<forall>x\<in>set ks. k <s x"
      by simp
    ultimately have "\<forall>x\<in>set (k # ks). rc \<le>s x"
      by (auto intro: signed.less_imp_le signed.order_trans)
    then show ?thesis
      by (intro exI [of _ 0]) simp
  qed
qed

lemma GetMax_shape:
  obtains n where "n \<le> card R"
    and "GetMaxReplicaCountAndDeleteSlots d R = (d + of_nat n, set (take n (List_Int32 R)))"
    and "\<forall>i<n. List_Int32 R ! i <s d + of_nat i"
    and "\<forall>k\<in>set (drop n (List_Int32 R)). d + of_nat n \<le>s k"
    and "card (set (take n (List_Int32 R))) = n"
proof -
  let ?ks = "List_Int32 R"
  from scan_shape [OF sorted_List_Int32, of R d] obtain n where n: "n \<le> length ?ks"
    "\<forall>i<n. ?ks ! i <s d + of_nat i" "\<forall>k\<in>set (drop n ?ks). d + of_nat n \<le>s k"
    by blast
  have "distinct (take n ?ks @ drop n ?ks)"
    by (simp only: append_take_drop_id distinct_List_Int32)
  then have disj: "set (take n ?ks) \<inter> set (drop n ?ks) = {}"
    by (simp only: distinct_append) 
  have "set (take n ?ks) \<union> set (drop n ?ks) = R"
    by (simp only: set_append [symmetric] append_take_drop_id set_List_Int32)
  with disj have "R - set (drop n ?ks) = set (take n ?ks)"
    by blast
  then have "GetMaxReplicaCountAndDeleteSlots d R = (d + of_nat n, set (take n ?ks))"
    using scan_run [OF n, of R] by (simp add: GetMaxReplicaCountAndDeleteSlots_def)
  moreover have "card (set (take n ?ks)) = n"
    using distinct_card [OF distinct_take [OF distinct_List_Int32, of n R]] n(1) by simp
  moreover have "n \<le> card R"
    using n(1) by (simp add: length_List_Int32)
  ultimately show thesis
    using n(2,3) that by blast
qed

lemma GetMax_no_wrap:
  assumes "sint d + int (card (snd (GetMaxReplicaCountAndDeleteSlots d R))) \<le> 2147483647"
  shows "sint (fst (GetMaxReplicaCountAndDeleteSlots d R))
           = sint d + int (card (snd (GetMaxReplicaCountAndDeleteSlots d R)))"
    and "snd (GetMaxReplicaCountAndDeleteSlots d R)
           = {r \<in> R. r <s fst (GetMaxReplicaCountAndDeleteSlots d R)}"
proof -
  let ?ks = "List_Int32 R"
  obtain n where n: "GetMaxReplicaCountAndDeleteSlots d R = (d + of_nat n, set (take n ?ks))"
    "\<forall>i<n. ?ks ! i <s d + of_nat i" "\<forall>k\<in>set (drop n ?ks). d + of_nat n \<le>s k"
    "card (set (take n ?ks)) = n" "n \<le> card R"
    by (rule GetMax_shape [of R d]) blast
  from assms n(1,4) have bound: "sint d + int n \<le> 2147483647"
    by simp
  have upto: "sint (d + of_nat i) = sint d + int i" if "i \<le> n" for i
    using that bound by (intro sint32_add_nat) simp
  show "sint (fst (GetMaxReplicaCountAndDeleteSlots d R))
           = sint d + int (card (snd (GetMaxReplicaCountAndDeleteSlots d R)))"
    using n(1,4) upto [of n] by simp
  have "set (take n ?ks) = {r \<in> R. r <s d + of_nat n}"
  proof (intro set_eqI iffI)
    fix x
    assume "x \<in> set (take n ?ks)"
    then obtain i where i: "i < n" "i < length ?ks" "x = ?ks ! i"
      by (auto simp: in_set_conv_nth)
    from n(2) i(1) have "?ks ! i <s d + of_nat i"
      by blast
    then have "sint x < sint d + int i"
      using i(1,3) upto [of i] by (simp add: word_sless_alt)
    then have "x <s d + of_nat n"
      using i(1) upto [of n] by (simp add: word_sless_alt)
    moreover have "x \<in> R"
      using i(2,3) set_List_Int32 [of R] nth_mem by blast
    ultimately show "x \<in> {r \<in> R. r <s d + of_nat n}"
      by simp
  next
    fix x
    assume "x \<in> {r \<in> R. r <s d + of_nat n}"
    then have x: "x \<in> R" "x <s d + of_nat n"
      by simp_all
    have "set (take n ?ks) \<union> set (drop n ?ks) = R"
      by (simp only: set_append [symmetric] append_take_drop_id set_List_Int32)
    with x(1) have "x \<in> set (take n ?ks) \<or> x \<in> set (drop n ?ks)"
      by blast
    moreover have "x \<notin> set (drop n ?ks)"
    proof
      assume "x \<in> set (drop n ?ks)"
      with n(3) have "d + of_nat n \<le>s x"
        by blast
      with x(2) show False
        by (simp add: word_sle_eq word_sless_alt)
    qed
    ultimately show "x \<in> set (take n ?ks)"
      by blast
  qed
  then show "snd (GetMaxReplicaCountAndDeleteSlots d R)
           = {r \<in> R. r <s fst (GetMaxReplicaCountAndDeleteSlots d R)}"
    using n(1) by simp
qed

section \<open>The active ordinal set\<close>

lemma podOrdinalsLoop_eq:
  "podOrdinalsLoop i m ds acc = acc \<union> {j. i \<le>s j \<and> j <s m \<and> j \<notin> ds}"
proof (induction i m ds acc rule: podOrdinalsLoop.induct)
  case (1 i m ds acc)
  show ?case
  proof (cases "i <s m")
    case True
    have inc: "sint (i + 1) = sint i + 1"
      using True by (rule sint32_inc)
    have step: "i \<le>s j \<longleftrightarrow> j = i \<or> i + 1 \<le>s j" for j
      using inc sint32_inj [of j i] by (auto simp: word_sle_eq)
    have "{j. i \<le>s j \<and> j <s m \<and> j \<notin> ds}
            = (if i \<notin> ds then {i} else {}) \<union> {j. i + 1 \<le>s j \<and> j <s m \<and> j \<notin> ds}"
      using True step by auto
    moreover have "podOrdinalsLoop i m ds acc
        = podOrdinalsLoop (i + 1) m ds (if i \<notin> ds then insert i acc else acc)"
      using True by (subst podOrdinalsLoop.simps) simp
    ultimately show ?thesis
      using "1.IH" [OF True] by auto
  next
    case False
    then have "{j. i \<le>s j \<and> j <s m \<and> j \<notin> ds} = {}"
      by (auto simp: word_sle_eq word_sless_alt)
    moreover have "podOrdinalsLoop i m ds acc = acc"
      using False by (subst podOrdinalsLoop.simps) simp
    ultimately show ?thesis
      by (simp only: Un_empty_right)
  qed
qed

lemma GetPodOrdinals_eq:
  "GetPodOrdinalsFromReplicasAndDeleteSlots d R
     = {j. 0 \<le>s j \<and> j <s fst (GetMaxReplicaCountAndDeleteSlots d R)}
       - snd (GetMaxReplicaCountAndDeleteSlots d R)"
proof -
  obtain b C where bC: "GetMaxReplicaCountAndDeleteSlots d R = (b, C)"
    by (cases "GetMaxReplicaCountAndDeleteSlots d R")
  have "podOrdinalsLoop 0 b C {} = {j. 0 \<le>s j \<and> j <s b} - C"
    unfolding podOrdinalsLoop_eq by blast
  then show ?thesis
    by (simp add: GetPodOrdinalsFromReplicasAndDeleteSlots_def bC)
qed

lemma card_below: "card {j :: int32. 0 \<le>s j \<and> j <s b} = nat (sint b)"
proof -
  let ?A = "{j :: int32. 0 \<le>s j \<and> j <s b}"
  have mem: "j \<in> ?A \<longleftrightarrow> 0 \<le> sint j \<and> sint j < sint b" for j
    by (simp add: word_sle_eq word_sless_alt)
  have "sint ` ?A = {0..<sint b}"
  proof (intro equalityI subsetI)
    fix k
    assume "k \<in> sint ` ?A"
    then obtain j where "j \<in> ?A" "k = sint j"
      by blast
    then show "k \<in> {0..<sint b}"
      using mem [of j] by simp
  next
    fix k
    assume "k \<in> {0..<sint b}"
    then have k: "0 \<le> k" "k < sint b"
      by simp_all
    with sint32_range [of b] have eq: "sint (word_of_int k :: int32) = k"
      by (intro sint32_of_int) simp_all
    with k have "(word_of_int k :: int32) \<in> ?A"
      by (simp only: mem)
    then have "sint (word_of_int k :: int32) \<in> sint ` ?A"
      by (rule imageI)
    then show "k \<in> sint ` ?A"
      by (simp only: eq)
  qed
  moreover have "inj_on sint ?A"
    by (simp add: inj_on_def sint32_inj)
  ultimately have "card ?A = card {0..<sint b}"
    using card_image [of sint ?A] by simp
  then show ?thesis
    by simp
qed

lemma card_active:
  assumes "0 \<le>s d" and "\<forall>r\<in>R. 0 \<le>s r"
    and "sint d + int (card (snd (GetMaxReplicaCountAndDeleteSlots d R))) \<le> 2147483647"
  shows "int (card (GetPodOrdinalsFromReplicasAndDeleteSlots d R)) = sint d"
proof -
  let ?b = "fst (GetMaxReplicaCountAndDeleteSlots d R)"
  let ?C = "snd (GetMaxReplicaCountAndDeleteSlots d R)"
  have b: "sint ?b = sint d + int (card ?C)" and C: "?C = {r \<in> R. r <s ?b}"
    using GetMax_no_wrap [OF assms(3)] by blast+
  have sub: "?C \<subseteq> {j. 0 \<le>s j \<and> j <s ?b}"
    using C assms(2) by blast
  have "card ({j. 0 \<le>s j \<and> j <s ?b} - ?C) = card {j. 0 \<le>s j \<and> j <s ?b} - card ?C"
    using sub by (intro card_Diff_subset) simp_all
  also have "\<dots> = nat (sint ?b) - card ?C"
    by (simp only: card_below)
  finally have "int (card ({j. 0 \<le>s j \<and> j <s ?b} - ?C)) = sint d"
    using b assms(1) by (simp add: word_sle_eq)
  then show ?thesis
    by (simp only: GetPodOrdinals_eq)
qed

section \<open>Cardinality of the active ordinal set\<close>

text \<open>
  Claim C1, as amended. For a desired cardinality \<open>d \<ge> 0\<close> and a reservation set of
  non-negative ordinals, the active ordinal set returned by
  \<open>GetPodOrdinalsFromReplicasAndDeleteSlots\<close> has exactly \<open>d\<close> members, provided the boundary
  \<open>d + |consumed|\<close> that \<open>GetMaxReplicaCountAndDeleteSlots\<close> counts up to still fits an
  \<open>int32\<close>, that is, does not exceed 2147483647.
\<close>

theorem C1_cardinality:
  assumes "0 \<le>s d" and "\<forall>r\<in>R. 0 \<le>s r"
    and "sint d + int (card (snd (GetMaxReplicaCountAndDeleteSlots d R))) \<le> 2147483647"
  shows "int (card (GetPodOrdinalsFromReplicasAndDeleteSlots d R)) = sint d"
  using assms by (rule card_active)

theorem C1_cardinality_witness:
  "(0 :: int32) \<le>s 3 \<and> (0 :: int32) \<le>s 2 \<and> (0 :: int32) \<le>s 4
   \<and> sint (3 :: int32) + int (card (snd (GetMaxReplicaCountAndDeleteSlots 3 {2, 4}))) \<le> 2147483647
   \<and> int (card (GetPodOrdinalsFromReplicasAndDeleteSlots 3 {2, 4})) = sint (3 :: int32)"
proof -
  have h1: "(0 :: int32) \<le>s 3"
    by (simp add: word_sle_eq)
  have h2: "\<forall>r\<in>{2, 4 :: int32}. 0 \<le>s r"
    by (simp add: word_sle_eq)
  have "GetMaxReplicaCountAndDeleteSlots 3 {2, 4} = (4, {2})"
    by code_simp
  then have h3: "sint (3 :: int32) + int (card (snd (GetMaxReplicaCountAndDeleteSlots 3 {2, 4})))
                   \<le> 2147483647"
    by simp
  show ?thesis
    using h1 h2 h3 C1_cardinality [OF h1 h2 h3] by simp
qed

text \<open>
  With \<open>d = 2147483647\<close> and the single reservation \<open>0\<close> the boundary wraps around to
  \<open>-2147483648\<close>, the loop over \<open>[0, boundary)\<close> does not run, and the active set is empty.
\<close>

theorem C1_overflow_counterexample:
  "(0 :: int32) \<le>s 2147483647 \<and> (0 :: int32) \<le>s 0
   \<and> GetMaxReplicaCountAndDeleteSlots 2147483647 {0} = (- 2147483648, {0})
   \<and> GetPodOrdinalsFromReplicasAndDeleteSlots 2147483647 {0} = {}
   \<and> int (card (GetPodOrdinalsFromReplicasAndDeleteSlots 2147483647 {0}))
       \<noteq> sint (2147483647 :: int32)"
proof -
  have g: "GetMaxReplicaCountAndDeleteSlots 2147483647 {0} = (- 2147483648, {0})"
    by code_simp
  have p: "GetPodOrdinalsFromReplicasAndDeleteSlots 2147483647 {0} = {}"
    by code_simp
  show ?thesis
    by (simp add: g p word_sle_eq)
qed

section \<open>The scan against the specification\<close>

lemma scan_subset: "snd (scanDeleteSlots ks (rc, C)) \<subseteq> C"
proof (induction ks arbitrary: rc C)
  case Nil
  then show ?case by simp
next
  case (Cons k ks)
  show ?case
    using Cons.IH [of "rc + 1" C] Cons.IH [of rc "C - {k}"] by auto
qed

lemma resolve_grows: "b \<le> fst (foldl resolveStep (b, C) xs)"
proof (induction xs arbitrary: b C)
  case Nil
  then show ?case by simp
next
  case (Cons x xs)
  show ?case
    using Cons.IH [of "b + 1" C] Cons.IH [of b "C - {x}"] by (simp add: resolveStep_def)
qed

text \<open>
  As long as the boundary of the specification's scan fits an \<open>int32\<close>, the scan of the code
  goes through the same boundaries and consumed sets.
\<close>

lemma scan_refines:
  assumes "fst (foldl resolveStep (sint rc, sint ` C) (map sint ks)) \<le> 2147483647"
  shows "sint (fst (scanDeleteSlots ks (rc, C)))
           = fst (foldl resolveStep (sint rc, sint ` C) (map sint ks))
    \<and> sint ` snd (scanDeleteSlots ks (rc, C))
           = snd (foldl resolveStep (sint rc, sint ` C) (map sint ks))"
  using assms
proof (induction ks arbitrary: rc C)
  case Nil
  then show ?case by simp
next
  case (Cons k ks)
  show ?case
  proof (cases "k <s rc")
    case True
    then have lt: "sint k < sint rc"
      by (simp add: word_sless_alt)
    then have step: "foldl resolveStep (sint rc, sint ` C) (map sint (k # ks))
                       = foldl resolveStep (sint rc + 1, sint ` C) (map sint ks)"
      by (simp add: resolveStep_def)
    have "sint rc + 1 \<le> fst (foldl resolveStep (sint rc + 1, sint ` C) (map sint ks))"
      by (rule resolve_grows)
    with Cons.prems step have "sint rc + 1 \<le> 2147483647"
      by simp
    then have inc: "sint (rc + 1) = sint rc + 1"
      using sint32_add_nat [of rc 1] by simp
    have "fst (foldl resolveStep (sint (rc + 1), sint ` C) (map sint ks)) \<le> 2147483647"
      using Cons.prems step by (simp only: inc)
    from Cons.IH [OF this] show ?thesis
      using True by (simp only: step inc scanDeleteSlots.simps if_True)
  next
    case False
    then have ge: "\<not> sint k < sint rc"
      by (simp add: word_sless_alt)
    have img: "sint ` (C - {k}) = sint ` C - {sint k}"
      by (auto simp: sint32_inj)
    from ge have step: "foldl resolveStep (sint rc, sint ` C) (map sint (k # ks))
                       = foldl resolveStep (sint rc, sint ` (C - {k})) (map sint ks)"
      by (simp add: resolveStep_def img)
    have "fst (foldl resolveStep (sint rc, sint ` (C - {k})) (map sint ks)) \<le> 2147483647"
      using Cons.prems by (simp only: step)
    from Cons.IH [OF this] show ?thesis
      using False by (simp only: step scanDeleteSlots.simps if_False)
  qed
qed

lemma ascending_unique:
  assumes "sorted_wrt (<) xs" and "set xs = sint ` R"
  shows "map sint (List_Int32 R) = xs"
proof -
  have "sorted_wrt (<) (sorted_list_of_set (sint ` R))"
    by (rule strict_sorted_list_of_set)
  moreover have "set (sorted_list_of_set (sint ` R)) = set xs"
    using assms(2) by simp
  ultimately have "sorted_list_of_set (sint ` R) = xs"
    using assms(1) strict_sorted_equal by blast
  then show ?thesis
    by (simp only: map_sint_List_Int32)
qed

lemma sint_image_below: "sint ` {j :: int32. 0 \<le>s j \<and> j <s b} = {0..<sint b}"
proof (intro equalityI subsetI)
  fix k
  assume "k \<in> sint ` {j :: int32. 0 \<le>s j \<and> j <s b}"
  then obtain j :: int32 where "0 \<le>s j" "j <s b" "k = sint j"
    by blast
  then show "k \<in> {0..<sint b}"
    by (simp add: word_sle_eq word_sless_alt)
next
  fix k
  assume "k \<in> {0..<sint b}"
  then have k: "0 \<le> k" "k < sint b"
    by simp_all
  with sint32_range [of b] have eq: "sint (word_of_int k :: int32) = k"
    by (intro sint32_of_int) simp_all
  with k have "(word_of_int k :: int32) \<in> {j. 0 \<le>s j \<and> j <s b}"
    by (simp add: word_sle_eq word_sless_alt)
  then have "sint (word_of_int k :: int32) \<in> sint ` {j :: int32. 0 \<le>s j \<and> j <s b}"
    by (rule imageI)
  then show "k \<in> sint ` {j :: int32. 0 \<le>s j \<and> j <s b}"
    by (simp only: eq)
qed

lemma GetMax_refines:
  assumes "sorted_wrt (<) xs" and "set xs = sint ` R"
    and "fst (resolveBoundaryAndConsumed (sint d) xs) \<le> 2147483647"
  shows "sint (fst (GetMaxReplicaCountAndDeleteSlots d R)) = fst (resolveBoundaryAndConsumed (sint d) xs)"
    and "sint ` snd (GetMaxReplicaCountAndDeleteSlots d R) = snd (resolveBoundaryAndConsumed (sint d) xs)"
    and "sint ` GetPodOrdinalsFromReplicasAndDeleteSlots d R = activeOrdinals (sint d) xs"
proof -
  have xs: "map sint (List_Int32 R) = xs"
    using assms(1,2) by (rule ascending_unique)
  have spec: "resolveBoundaryAndConsumed (sint d) xs
                = foldl resolveStep (sint d, sint ` R) (map sint (List_Int32 R))"
    by (simp add: resolveBoundaryAndConsumed_def xs assms(2))
  have "fst (foldl resolveStep (sint d, sint ` R) (map sint (List_Int32 R))) \<le> 2147483647"
    using assms(3) by (simp only: spec)
  from scan_refines [OF this]
  show b: "sint (fst (GetMaxReplicaCountAndDeleteSlots d R)) = fst (resolveBoundaryAndConsumed (sint d) xs)"
    and C: "sint ` snd (GetMaxReplicaCountAndDeleteSlots d R) = snd (resolveBoundaryAndConsumed (sint d) xs)"
    by (simp_all only: spec GetMaxReplicaCountAndDeleteSlots_def)
  have "inj (sint :: int32 \<Rightarrow> int)"
    by (simp add: inj_def sint32_inj)
  then have "sint ` GetPodOrdinalsFromReplicasAndDeleteSlots d R
               = {0..<sint (fst (GetMaxReplicaCountAndDeleteSlots d R))}
                 - sint ` snd (GetMaxReplicaCountAndDeleteSlots d R)"
    by (simp only: GetPodOrdinals_eq image_set_diff sint_image_below)
  then show "sint ` GetPodOrdinalsFromReplicasAndDeleteSlots d R = activeOrdinals (sint d) xs"
    by (simp add: activeOrdinals_def b C split: prod.splits)
qed


text \<open>
  Claim C2, as amended. \<open>GetMaxReplicaCountAndDeleteSlots\<close> implements the ascending scan
  of the specification as long as the boundary of that scan does not exceed 2147483647: for the
  strictly ascending list \<open>xs\<close> of the reservations it returns the boundary and the consumed
  set of \<open>resolveBoundaryAndConsumed\<close>, and the active ordinal set is \<open>activeOrdinals\<close>,
  that is \<open>{0 .. boundary - 1}\<close> without the consumed reservations. With or without that
  bound the consumed set is a subset of \<open>R\<close> and the active set is \<open>{0 .. boundary - 1}\<close>
  without the consumed set, for the boundary and the consumed set the code returns. For
  \<open>d = 3\<close> and \<open>R = {2, 4}\<close> the boundary is \<open>4\<close>, the consumed set \<open>{2}\<close> and the active
  set \<open>{0, 1, 3}\<close>.
\<close>

theorem C2_ascending_scan:
  "(sorted_wrt (<) xs \<and> set xs = sint ` R
      \<and> fst (resolveBoundaryAndConsumed (sint d) xs) \<le> 2147483647
    \<longrightarrow> sint (fst (GetMaxReplicaCountAndDeleteSlots d R))
          = fst (resolveBoundaryAndConsumed (sint d) xs)
        \<and> sint ` snd (GetMaxReplicaCountAndDeleteSlots d R)
          = snd (resolveBoundaryAndConsumed (sint d) xs)
        \<and> sint ` GetPodOrdinalsFromReplicasAndDeleteSlots d R = activeOrdinals (sint d) xs)
   \<and> snd (GetMaxReplicaCountAndDeleteSlots d R) \<subseteq> R
   \<and> GetPodOrdinalsFromReplicasAndDeleteSlots d R
       = {i. 0 \<le>s i \<and> i <s fst (GetMaxReplicaCountAndDeleteSlots d R)}
         - snd (GetMaxReplicaCountAndDeleteSlots d R)
   \<and> GetMaxReplicaCountAndDeleteSlots 3 {2, 4} = (4, {2})
   \<and> GetPodOrdinalsFromReplicasAndDeleteSlots 3 {2, 4} = {0, 1, 3}"
proof -
  have "snd (GetMaxReplicaCountAndDeleteSlots d R) \<subseteq> R"
    unfolding GetMaxReplicaCountAndDeleteSlots_def by (rule scan_subset)
  moreover have "GetMaxReplicaCountAndDeleteSlots 3 {2, 4} = (4, {2})"
    by code_simp
  moreover have "GetPodOrdinalsFromReplicasAndDeleteSlots 3 {2, 4} = {0, 1, 3}"
    by code_simp
  ultimately show ?thesis
    using GetPodOrdinals_eq [of d R] GetMax_refines [of xs R d] by blast
qed

theorem C2_ascending_scan_witness:
  "sorted_wrt (<) [2, 4 :: int] \<and> set [2, 4 :: int] = sint ` {2, 4 :: int32}
   \<and> sint (3 :: int32) = 3
   \<and> resolveBoundaryAndConsumed 3 [2, 4] = (4, {2})
   \<and> fst (resolveBoundaryAndConsumed 3 [2, 4]) \<le> 2147483647
   \<and> activeOrdinals 3 [2, 4] = {0, 1, 3}
   \<and> sint (fst (GetMaxReplicaCountAndDeleteSlots 3 {2, 4})) = 4
   \<and> sint ` snd (GetMaxReplicaCountAndDeleteSlots 3 {2, 4}) = {2}
   \<and> sint ` GetPodOrdinalsFromReplicasAndDeleteSlots 3 {2, 4} = {0, 1, 3}"
proof -
  have h1: "sorted_wrt (<) [2, 4 :: int]"
    by simp
  have h2: "set [2, 4 :: int] = sint ` {2, 4 :: int32}"
    by simp
  have d: "sint (3 :: int32) = 3"
    by simp
  have r: "resolveBoundaryAndConsumed 3 [2, 4] = (4, {2})"
    by (simp add: resolveBoundaryAndConsumed_def resolveStep_def insert_Diff_if)
  have h3: "fst (resolveBoundaryAndConsumed (sint (3 :: int32)) [2, 4]) \<le> 2147483647"
    by (simp only: d r) simp
  have "{0..<4} - {2} = {0, 1, 3 :: int}"
    by auto
  then have a: "activeOrdinals 3 [2, 4] = {0, 1, 3}"
    by (simp only: activeOrdinals_def r prod.case)
  have "sint (fst (GetMaxReplicaCountAndDeleteSlots 3 {2, 4}))
          = fst (resolveBoundaryAndConsumed (sint (3 :: int32)) [2, 4])
        \<and> sint ` snd (GetMaxReplicaCountAndDeleteSlots 3 {2, 4})
          = snd (resolveBoundaryAndConsumed (sint (3 :: int32)) [2, 4])
        \<and> sint ` GetPodOrdinalsFromReplicasAndDeleteSlots 3 {2, 4}
          = activeOrdinals (sint (3 :: int32)) [2, 4]"
    using C2_ascending_scan [of "[2, 4]" "{2, 4}" 3, THEN conjunct1, THEN mp] h1 h2 h3
    by (simp only: simp_thms)
  then have "sint (fst (GetMaxReplicaCountAndDeleteSlots 3 {2, 4})) = 4
        \<and> sint ` snd (GetMaxReplicaCountAndDeleteSlots 3 {2, 4}) = {2}
        \<and> sint ` GetPodOrdinalsFromReplicasAndDeleteSlots 3 {2, 4} = {0, 1, 3}"
    by (simp only: d r a fst_conv snd_conv)
  with h1 h2 d r a show ?thesis
    by (simp only: fst_conv simp_thms)
qed

text \<open>
  With \<open>d = 2147483647\<close> and the single reservation \<open>0\<close> the scan of the specification
  arrives at the boundary 2147483648, the code at \<open>-2147483648\<close>.
\<close>

theorem C2_overflow_counterexample:
  "sorted_wrt (<) [0 :: int] \<and> set [0 :: int] = sint ` {0 :: int32}
   \<and> sint (2147483647 :: int32) = 2147483647
   \<and> resolveBoundaryAndConsumed 2147483647 [0] = (2147483648, {0})
   \<and> GetMaxReplicaCountAndDeleteSlots 2147483647 {0} = (- 2147483648, {0})
   \<and> sint (fst (GetMaxReplicaCountAndDeleteSlots 2147483647 {0}))
       \<noteq> fst (resolveBoundaryAndConsumed (sint (2147483647 :: int32)) [0])"
proof -
  have r: "resolveBoundaryAndConsumed 2147483647 [0] = (2147483648, {0})"
    by (simp add: resolveBoundaryAndConsumed_def resolveStep_def)
  have g: "GetMaxReplicaCountAndDeleteSlots 2147483647 {0} = (- 2147483648, {0})"
    by code_simp
  show ?thesis
    by (simp add: r g)
qed

section \<open>Monotonicity of the boundary\<close>

lemma boundary_mono:
  assumes le: "d1 \<le>s d2"
    and nowrap: "sint d2 + int (card (snd (GetMaxReplicaCountAndDeleteSlots d2 R))) \<le> 2147483647"
  shows "fst (GetMaxReplicaCountAndDeleteSlots d1 R) \<le>s fst (GetMaxReplicaCountAndDeleteSlots d2 R)"
proof -
  let ?ks = "List_Int32 R"
  obtain n1 where n1: "GetMaxReplicaCountAndDeleteSlots d1 R = (d1 + of_nat n1, set (take n1 ?ks))"
    "\<forall>i<n1. ?ks ! i <s d1 + of_nat i" "n1 \<le> card R"
    by (rule GetMax_shape [of R d1]) blast
  obtain n2 where n2: "GetMaxReplicaCountAndDeleteSlots d2 R = (d2 + of_nat n2, set (take n2 ?ks))"
    "\<forall>k\<in>set (drop n2 ?ks). d2 + of_nat n2 \<le>s k" "card (set (take n2 ?ks)) = n2"
    by (rule GetMax_shape [of R d2]) blast
  from le have d: "sint d1 \<le> sint d2"
    by (simp add: word_sle_eq)
  from nowrap n2(1,3) have bound: "sint d2 + int n2 \<le> 2147483647"
    by simp
  have b2: "sint (d2 + of_nat n2) = sint d2 + int n2"
    using bound by (intro sint32_add_nat) simp
  have "sint d1 + int n1 \<le> sint d2 + int n2"
  proof (rule ccontr)
    assume "\<not> sint d1 + int n1 \<le> sint d2 + int n2"
    with d have lt: "n2 < n1"
      by simp
    with n1(3) have len: "n2 < length ?ks"
      by (simp add: length_List_Int32)
    then have "?ks ! n2 \<in> set (drop n2 ?ks)"
      by (metis Cons_nth_drop_Suc list.set_intros(1))
    with n2(2) have "d2 + of_nat n2 \<le>s ?ks ! n2"
      by blast
    then have lower: "sint d2 + int n2 \<le> sint (?ks ! n2)"
      by (simp add: word_sle_eq b2)
    have "sint (d1 + of_nat n2) = sint d1 + int n2"
      using bound d by (intro sint32_add_nat) simp
    moreover from n1(2) lt have "?ks ! n2 <s d1 + of_nat n2"
      by blast
    ultimately have "sint (?ks ! n2) < sint d1 + int n2"
      by (simp add: word_sless_alt)
    with lower d show False
      by simp
  qed
  moreover from this bound have "sint (d1 + of_nat n1) = sint d1 + int n1"
    by (intro sint32_add_nat) simp
  ultimately show ?thesis
    using b2 by (simp add: n1(1) n2(1) word_sle_eq)
qed

text \<open>
  Claim C4, as amended. For a fixed reservation set \<open>R\<close> and \<open>d1 \<le> d2\<close>, the boundary returned
  for \<open>d1\<close> is at most the boundary returned for \<open>d2\<close>, provided the boundary
  \<open>d2 + |consumed|\<close> of the larger cardinality does not exceed 2147483647.
\<close>

theorem C4_boundary_monotone:
  assumes "d1 \<le>s d2"
    and "sint d2 + int (card (snd (GetMaxReplicaCountAndDeleteSlots d2 R))) \<le> 2147483647"
  shows "fst (GetMaxReplicaCountAndDeleteSlots d1 R) \<le>s fst (GetMaxReplicaCountAndDeleteSlots d2 R)"
  using assms by (rule boundary_mono)

theorem C4_boundary_monotone_witness:
  "(1 :: int32) \<le>s 3
   \<and> sint (3 :: int32) + int (card (snd (GetMaxReplicaCountAndDeleteSlots 3 {2, 4}))) \<le> 2147483647
   \<and> fst (GetMaxReplicaCountAndDeleteSlots 1 {2, 4}) = 1
   \<and> fst (GetMaxReplicaCountAndDeleteSlots 3 {2, 4}) = 4
   \<and> fst (GetMaxReplicaCountAndDeleteSlots 1 {2, 4}) \<le>s fst (GetMaxReplicaCountAndDeleteSlots 3 {2, 4})"
proof -
  have h1: "(1 :: int32) \<le>s 3"
    by (simp add: word_sle_eq)
  have g3: "GetMaxReplicaCountAndDeleteSlots 3 {2, 4} = (4, {2})"
    by code_simp
  have g1: "GetMaxReplicaCountAndDeleteSlots 1 {2, 4} = (1, {})"
    by code_simp
  have h2: "sint (3 :: int32) + int (card (snd (GetMaxReplicaCountAndDeleteSlots 3 {2, 4})))
              \<le> 2147483647"
    by (simp add: g3)
  show ?thesis
    using h1 h2 C4_boundary_monotone [OF h1 h2] by (simp add: g1 g3)
qed

text \<open>
  With the reservation \<open>0\<close>, the cardinality 2147483646 has the boundary 2147483647, and the
  larger cardinality 2147483647 has the wrapped boundary \<open>-2147483648\<close>.
\<close>

theorem C4_overflow_counterexample:
  "(0 :: int32) \<le>s 2147483646 \<and> (2147483646 :: int32) \<le>s 2147483647
   \<and> fst (GetMaxReplicaCountAndDeleteSlots 2147483646 {0}) = 2147483647
   \<and> fst (GetMaxReplicaCountAndDeleteSlots 2147483647 {0}) = - 2147483648
   \<and> \<not> fst (GetMaxReplicaCountAndDeleteSlots 2147483646 {0})
          \<le>s fst (GetMaxReplicaCountAndDeleteSlots 2147483647 {0})"
proof -
  have g1: "GetMaxReplicaCountAndDeleteSlots 2147483646 {0} = (2147483647, {0})"
    by code_simp
  have g2: "GetMaxReplicaCountAndDeleteSlots 2147483647 {0} = (- 2147483648, {0})"
    by code_simp
  show ?thesis
    by (simp add: g1 g2 word_sle_eq)
qed

section \<open>Latent reservations\<close>

lemma List_Int32_remove: "List_Int32 (R - {r}) = filter (\<lambda>x. x \<noteq> r) (List_Int32 R)"
proof (rule List_Int32_unique)
  show "sorted_wrt (<s) (filter (\<lambda>x. x \<noteq> r) (List_Int32 R))"
    using sorted_List_Int32 by (rule sorted_wrt_filter)
  show "set (filter (\<lambda>x. x \<noteq> r) (List_Int32 R)) = R - {r}"
    by (auto simp: set_List_Int32)
qed

lemma latent_dormant:
  assumes r: "r \<in> R" and latent: "fst (GetMaxReplicaCountAndDeleteSlots d R) \<le>s r"
    and nowrap: "sint d + int (card (snd (GetMaxReplicaCountAndDeleteSlots d R))) \<le> 2147483647"
  shows "r \<notin> snd (GetMaxReplicaCountAndDeleteSlots d R)"
    and "GetMaxReplicaCountAndDeleteSlots d (R - {r}) = GetMaxReplicaCountAndDeleteSlots d R"
proof -
  let ?ks = "List_Int32 R"
  let ?ne = "\<lambda>x. x \<noteq> r"
  have "snd (GetMaxReplicaCountAndDeleteSlots d R)
          = {x \<in> R. x <s fst (GetMaxReplicaCountAndDeleteSlots d R)}"
    using nowrap by (rule GetMax_no_wrap(2))
  with latent show notin: "r \<notin> snd (GetMaxReplicaCountAndDeleteSlots d R)"
    by (simp add: word_sle_eq word_sless_alt)
  obtain n where n: "GetMaxReplicaCountAndDeleteSlots d R = (d + of_nat n, set (take n ?ks))"
    "\<forall>i<n. ?ks ! i <s d + of_nat i" "\<forall>k\<in>set (drop n ?ks). d + of_nat n \<le>s k"
    "n \<le> card R"
    by (rule GetMax_shape [of R d]) blast
  from notin n(1) have "r \<notin> set (take n ?ks)"
    by simp
  then have keep: "filter ?ne (take n ?ks) = take n ?ks"
    by (intro filter_True) blast
  have "filter ?ne ?ks = filter ?ne (take n ?ks @ drop n ?ks)"
    by (simp only: append_take_drop_id)
  then have ks': "filter ?ne ?ks = take n ?ks @ filter ?ne (drop n ?ks)"
    by (simp only: filter_append keep)
  have len: "length (take n ?ks) = n"
    using n(4) by (simp add: length_List_Int32)
  have "scanDeleteSlots (filter ?ne ?ks) (d, R - {r})
          = (d + of_nat n, R - {r} - set (drop n (filter ?ne ?ks)))"
  proof (rule scan_run)
    show "n \<le> length (filter ?ne ?ks)"
      unfolding ks' using len by simp
    show "\<forall>i<n. filter ?ne ?ks ! i <s d + of_nat i"
      unfolding ks' using n(2) len by (simp add: nth_append)
    show "\<forall>k\<in>set (drop n (filter ?ne ?ks)). d + of_nat n \<le>s k"
      unfolding ks' using n(3) len by simp
  qed
  moreover have "drop n (filter ?ne ?ks) = filter ?ne (drop n ?ks)"
    unfolding ks' using len by simp
  moreover have "R - {r} - set (filter ?ne (drop n ?ks)) = set (take n ?ks)"
  proof -
    have "set (take n ?ks) \<union> set (drop n ?ks) = R"
      by (simp only: set_append [symmetric] append_take_drop_id set_List_Int32)
    moreover have "distinct (take n ?ks @ drop n ?ks)"
      by (simp only: append_take_drop_id distinct_List_Int32)
    then have "set (take n ?ks) \<inter> set (drop n ?ks) = {}"
      by (simp only: distinct_append)
    ultimately show ?thesis
      using \<open>r \<notin> set (take n ?ks)\<close> by auto
  qed
  ultimately show "GetMaxReplicaCountAndDeleteSlots d (R - {r}) = GetMaxReplicaCountAndDeleteSlots d R"
    by (simp add: GetMaxReplicaCountAndDeleteSlots_def [of d "R - {r}"] List_Int32_remove n(1))
qed

text \<open>
  Claim C5, as amended. If \<open>r\<close> is a reservation of \<open>R\<close> at or above the boundary of \<open>(d, R)\<close>,
  and that boundary \<open>d + |consumed|\<close> does not exceed 2147483647, then \<open>r\<close> is not consumed, and
  removing \<open>r\<close> from \<open>R\<close> changes neither the boundary, nor the consumed set, nor the active
  ordinal set.
\<close>

theorem C5_latent_dormant:
  assumes "r \<in> R" and "fst (GetMaxReplicaCountAndDeleteSlots d R) \<le>s r"
    and "sint d + int (card (snd (GetMaxReplicaCountAndDeleteSlots d R))) \<le> 2147483647"
  shows "r \<notin> snd (GetMaxReplicaCountAndDeleteSlots d R)
    \<and> GetMaxReplicaCountAndDeleteSlots d (R - {r}) = GetMaxReplicaCountAndDeleteSlots d R
    \<and> GetPodOrdinalsFromReplicasAndDeleteSlots d (R - {r})
        = GetPodOrdinalsFromReplicasAndDeleteSlots d R"
  using latent_dormant [OF assms] by (simp add: GetPodOrdinalsFromReplicasAndDeleteSlots_def)

theorem C5_latent_dormant_witness:
  "(4 :: int32) \<in> {2, 4} \<and> fst (GetMaxReplicaCountAndDeleteSlots 3 {2, 4}) \<le>s 4
   \<and> sint (3 :: int32) + int (card (snd (GetMaxReplicaCountAndDeleteSlots 3 {2, 4}))) \<le> 2147483647
   \<and> 4 \<notin> snd (GetMaxReplicaCountAndDeleteSlots 3 {2, 4})
   \<and> GetMaxReplicaCountAndDeleteSlots 3 ({2, 4} - {4}) = (4, {2})
   \<and> GetPodOrdinalsFromReplicasAndDeleteSlots 3 ({2, 4} - {4}) = {0, 1, 3}"
proof -
  have g: "GetMaxReplicaCountAndDeleteSlots 3 {2, 4} = (4, {2})"
    by code_simp
  have p: "GetPodOrdinalsFromReplicasAndDeleteSlots 3 {2, 4} = {0, 1, 3}"
    by code_simp
  have h1: "(4 :: int32) \<in> {2, 4}"
    by simp
  have h2: "fst (GetMaxReplicaCountAndDeleteSlots 3 {2, 4}) \<le>s 4"
    by (simp add: g word_sle_eq)
  have h3: "sint (3 :: int32) + int (card (snd (GetMaxReplicaCountAndDeleteSlots 3 {2, 4})))
              \<le> 2147483647"
    by (simp add: g)
  show ?thesis
    using h1 h2 h3 C5_latent_dormant [OF h1 h2 h3] by (simp add: g p)
qed

text \<open>
  With \<open>d = 2147483647\<close> the reservation \<open>0\<close> is consumed and wraps the boundary to
  \<open>-2147483648\<close>: it is at or above the returned boundary, yet consumed, and removing it
  changes the active set from empty to non-empty.
\<close>

theorem C5_overflow_counterexample:
  "(0 :: int32) \<le>s 2147483647 \<and> (0 :: int32) \<in> {0}
   \<and> fst (GetMaxReplicaCountAndDeleteSlots 2147483647 {0}) \<le>s 0
   \<and> 0 \<in> snd (GetMaxReplicaCountAndDeleteSlots 2147483647 {0})
   \<and> fst (GetMaxReplicaCountAndDeleteSlots 2147483647 ({0} - {0}))
       \<noteq> fst (GetMaxReplicaCountAndDeleteSlots 2147483647 {0})
   \<and> GetPodOrdinalsFromReplicasAndDeleteSlots 2147483647 ({0} - {0})
       \<noteq> GetPodOrdinalsFromReplicasAndDeleteSlots 2147483647 {0}"
proof -
  have g: "GetMaxReplicaCountAndDeleteSlots 2147483647 {0} = (- 2147483648, {0})"
    by code_simp
  have g': "GetMaxReplicaCountAndDeleteSlots 2147483647 {} = (2147483647, {})"
    by code_simp
  have p: "GetPodOrdinalsFromReplicasAndDeleteSlots 2147483647 {0} = {}"
    by code_simp
  have "(0 :: int32) \<in> {j. 0 \<le>s j \<and> j <s 2147483647} - {}"
    by (simp add: word_sle_eq word_sless_alt)
  then have "(0 :: int32) \<in> GetPodOrdinalsFromReplicasAndDeleteSlots 2147483647 {}"
    by (simp only: GetPodOrdinals_eq g' fst_conv snd_conv)
  then have "GetPodOrdinalsFromReplicasAndDeleteSlots 2147483647 {} \<noteq> {}"
    by blast
  then show ?thesis
    by (simp add: g g' p word_sle_eq)
qed

section \<open>The reservation store accessor\<close>

lemma Get_after_Set:
  assumes "S = {} \<or> (\<exists>b. marshal (List_Int32 S) = Inr b \<and> unmarshal b = Inr (List_Int32 S))"
  shows "fst (SetDeleteSlots marshal obj S) = None"
    and "GetDeleteSlots unmarshal (snd (SetDeleteSlots marshal obj S)) = S"
proof -
  show "fst (SetDeleteSlots marshal obj S) = None"
    using assms by (auto simp: SetDeleteSlots_def)
  show "GetDeleteSlots unmarshal (snd (SetDeleteSlots marshal obj S)) = S"
  proof (cases "S = {}")
    case True
    then show ?thesis
      by (simp add: SetDeleteSlots_def GetDeleteSlots_def split: option.splits)
  next
    case False
    with assms obtain b where b: "marshal (List_Int32 S) = Inr b" "unmarshal b = Inr (List_Int32 S)"
      by blast
    with False show ?thesis
      by (simp add: SetDeleteSlots_def GetDeleteSlots_def set_List_Int32)
  qed
qed

lemma Set_empty_removes_key:
  "case annotations (snd (SetDeleteSlots marshal obj {})) of
     None \<Rightarrow> True
   | Some anns \<Rightarrow> anns DeleteSlotsAnn = None"
  by (simp add: SetDeleteSlots_def split: option.splits)

lemma Set_twice:
  assumes "\<And>b. marshal (List_Int32 S) = Inr b \<Longrightarrow> unmarshal b = Inr (List_Int32 S)"
  shows "SetDeleteSlots marshal (snd (SetDeleteSlots marshal obj S)) S = SetDeleteSlots marshal obj S"
proof (cases "S = {}")
  case True
  then show ?thesis
    by (simp add: SetDeleteSlots_def split: option.splits)
next
  case False
  show ?thesis
  proof (cases "marshal (List_Int32 S)")
    case (Inl e)
    with False show ?thesis
      by (simp add: SetDeleteSlots_def)
  next
    case (Inr b)
    with False show ?thesis
      by (simp add: SetDeleteSlots_def)
  qed
qed

lemma Get_after_Add:
  assumes "\<And>b. marshal (List_Int32 (GetDeleteSlots unmarshal obj \<union> S)) = Inr b
             \<Longrightarrow> unmarshal b = Inr (List_Int32 (GetDeleteSlots unmarshal obj \<union> S))"
  shows "GetDeleteSlots unmarshal (snd (AddDeleteSlots marshal unmarshal obj S))
           = (if fst (AddDeleteSlots marshal unmarshal obj S) = None
              then GetDeleteSlots unmarshal obj \<union> S else GetDeleteSlots unmarshal obj)"
proof -
  let ?U = "GetDeleteSlots unmarshal obj \<union> S"
  show ?thesis
  proof (cases "?U = {}")
    case True
    then have "GetDeleteSlots unmarshal (snd (SetDeleteSlots marshal obj ?U)) = ?U"
      by (intro Get_after_Set(2)) simp
    moreover have "fst (SetDeleteSlots marshal obj ?U) = None"
      using True by (intro Get_after_Set(1)) simp
    ultimately show ?thesis
      by (simp add: AddDeleteSlots_def)
  next
    case False
    show ?thesis
    proof (cases "marshal (List_Int32 ?U)")
      case (Inl e)
      with False have "SetDeleteSlots marshal obj ?U = (Some e, obj)"
        by (simp only: SetDeleteSlots_def if_False sum.case)
      then show ?thesis
        by (simp add: AddDeleteSlots_def)
    next
      case (Inr b)
      with assms have "unmarshal b = Inr (List_Int32 ?U)"
        by blast
      with Inr have ok: "?U = {} \<or> (\<exists>b. marshal (List_Int32 ?U) = Inr b \<and> unmarshal b = Inr (List_Int32 ?U))"
        by blast
      have "GetDeleteSlots unmarshal (snd (SetDeleteSlots marshal obj ?U)) = ?U"
        using ok by (rule Get_after_Set(2))
      moreover have "fst (SetDeleteSlots marshal obj ?U) = None"
        using ok by (rule Get_after_Set(1))
      ultimately show ?thesis
        by (simp add: AddDeleteSlots_def)
    qed
  qed
qed

lemma Add_twice:
  assumes rt: "\<And>b. marshal (List_Int32 (GetDeleteSlots unmarshal obj \<union> S)) = Inr b
             \<Longrightarrow> unmarshal b = Inr (List_Int32 (GetDeleteSlots unmarshal obj \<union> S))"
  shows "AddDeleteSlots marshal unmarshal (snd (AddDeleteSlots marshal unmarshal obj S)) S
           = AddDeleteSlots marshal unmarshal obj S"
proof -
  let ?U = "GetDeleteSlots unmarshal obj \<union> S"
  let ?obj' = "snd (AddDeleteSlots marshal unmarshal obj S)"
  show ?thesis
  proof (cases "fst (AddDeleteSlots marshal unmarshal obj S)")
    case None
    then have "GetDeleteSlots unmarshal ?obj' = ?U"
      using Get_after_Add [of marshal unmarshal obj S] rt by simp
    then have "AddDeleteSlots marshal unmarshal ?obj' S = SetDeleteSlots marshal ?obj' ?U"
      by (simp add: AddDeleteSlots_def Un_assoc)
    also have "\<dots> = SetDeleteSlots marshal (snd (SetDeleteSlots marshal obj ?U)) ?U"
      by (simp add: AddDeleteSlots_def)
    also have "\<dots> = SetDeleteSlots marshal obj ?U"
      using rt by (rule Set_twice)
    finally show ?thesis
      by (simp add: AddDeleteSlots_def)
  next
    case (Some e)
    then have "?obj' = obj"
      by (auto simp: AddDeleteSlots_def SetDeleteSlots_def split: if_splits sum.splits)
    then show ?thesis
      by simp
  qed
qed




text \<open>
  Claim C8. \<open>AddDeleteSlots\<close> is idempotent: calling it a second time with the same set leaves
  the object, and so the stored reservation set, as the first call left it; and adding
  ordinals that are all reserved already does not change the stored set. The codec is
  assumed to read back what it writes for the union being stored.
\<close>

theorem C8_add_idempotent:
  assumes "\<And>b. marshal (List_Int32 (GetDeleteSlots unmarshal obj \<union> S)) = Inr b
             \<Longrightarrow> unmarshal b = Inr (List_Int32 (GetDeleteSlots unmarshal obj \<union> S))"
  shows "snd (AddDeleteSlots marshal unmarshal (snd (AddDeleteSlots marshal unmarshal obj S)) S)
           = snd (AddDeleteSlots marshal unmarshal obj S)
    \<and> GetDeleteSlots unmarshal
          (snd (AddDeleteSlots marshal unmarshal (snd (AddDeleteSlots marshal unmarshal obj S)) S))
        = GetDeleteSlots unmarshal (snd (AddDeleteSlots marshal unmarshal obj S))
    \<and> (S \<subseteq> GetDeleteSlots unmarshal obj
        \<longrightarrow> GetDeleteSlots unmarshal (snd (AddDeleteSlots marshal unmarshal obj S))
            = GetDeleteSlots unmarshal obj)"
proof -
  have "AddDeleteSlots marshal unmarshal (snd (AddDeleteSlots marshal unmarshal obj S)) S
          = AddDeleteSlots marshal unmarshal obj S"
    using assms by (rule Add_twice)
  moreover have "S \<subseteq> GetDeleteSlots unmarshal obj
        \<longrightarrow> GetDeleteSlots unmarshal (snd (AddDeleteSlots marshal unmarshal obj S))
            = GetDeleteSlots unmarshal obj"
    using Get_after_Add [of marshal unmarshal obj S] assms by (auto simp: Un_absorb2)
  ultimately show ?thesis
    by simp
qed

theorem C8_add_idempotent_witness:
  "GetDeleteSlots jsonUnmarshal \<lparr>annotations = Some [DeleteSlotsAnn \<mapsto> ''[2]'']\<rparr> = {2}
   \<and> jsonMarshal (List_Int32 ({2} \<union> {4})) = Inr ''[2,4]''
   \<and> jsonUnmarshal ''[2,4]'' = Inr (List_Int32 ({2} \<union> {4}))
   \<and> annotations (snd (AddDeleteSlots jsonMarshal jsonUnmarshal
         \<lparr>annotations = Some [DeleteSlotsAnn \<mapsto> ''[2]'']\<rparr> {4}))
       = Some [DeleteSlotsAnn \<mapsto> ''[2,4]'']
   \<and> snd (AddDeleteSlots jsonMarshal jsonUnmarshal
         (snd (AddDeleteSlots jsonMarshal jsonUnmarshal
            \<lparr>annotations = Some [DeleteSlotsAnn \<mapsto> ''[2]'']\<rparr> {4})) {4})
       = snd (AddDeleteSlots jsonMarshal jsonUnmarshal
            \<lparr>annotations = Some [DeleteSlotsAnn \<mapsto> ''[2]'']\<rparr> {4})"
proof -
  let ?obj = "\<lparr>annotations = Some [DeleteSlotsAnn \<mapsto> ''[2]'']\<rparr>"
  have u2: "jsonUnmarshal ''[2]'' = Inr [2]"
    by code_simp
  have get: "GetDeleteSlots jsonUnmarshal ?obj = {2}"
    by (simp add: GetDeleteSlots_def u2)
  have l: "List_Int32 ({2} \<union> {4}) = [2, 4]"
    by code_simp
  have m: "jsonMarshal [2, 4] = Inr ''[2,4]''"
    by code_simp
  have u: "jsonUnmarshal ''[2,4]'' = Inr [2, 4]"
    by code_simp
  have l': "List_Int32 (GetDeleteSlots jsonUnmarshal ?obj \<union> {4}) = [2, 4]"
    by (simp only: get l)
  have rt: "jsonUnmarshal b = Inr (List_Int32 (GetDeleteSlots jsonUnmarshal ?obj \<union> {4}))"
    if "jsonMarshal (List_Int32 (GetDeleteSlots jsonUnmarshal ?obj \<union> {4})) = Inr b" for b
  proof -
    from that have "b = ''[2,4]''"
      by (simp only: l' m sum.inject)
    then show ?thesis
      by (simp only: l' u)
  qed
  have "SetDeleteSlots jsonMarshal ?obj (GetDeleteSlots jsonUnmarshal ?obj \<union> {4})
          = (None, \<lparr>annotations = Some [DeleteSlotsAnn \<mapsto> ''[2,4]'']\<rparr>)"
    unfolding SetDeleteSlots_def l' m by (simp add: get)
  then have a: "annotations (snd (AddDeleteSlots jsonMarshal jsonUnmarshal ?obj {4}))
          = Some [DeleteSlotsAnn \<mapsto> ''[2,4]'']"
    by (simp add: AddDeleteSlots_def)
  have "snd (AddDeleteSlots jsonMarshal jsonUnmarshal
         (snd (AddDeleteSlots jsonMarshal jsonUnmarshal ?obj {4})) {4})
       = snd (AddDeleteSlots jsonMarshal jsonUnmarshal ?obj {4})"
    using C8_add_idempotent [where marshal = jsonMarshal and unmarshal = jsonUnmarshal
        and obj = ?obj and S = "{4}"] rt by blast
  then show ?thesis
    using a get l m u by simp
qed

text \<open>
  Claim C10. After \<open>SetDeleteSlots(obj, S)\<close>, \<open>GetDeleteSlots(obj)\<close> returns exactly \<open>S\<close>,
  for a codec that writes the sorted members of \<open>S\<close> without error and reads them back.
  For the empty set nothing is encoded: the annotation key is removed and the read returns
  the empty set, as it does when the key was never there.
\<close>

theorem C10_write_then_read:
  assumes "S = {} \<or> (\<exists>b. marshal (List_Int32 S) = Inr b \<and> unmarshal b = Inr (List_Int32 S))"
  shows "fst (SetDeleteSlots marshal obj S) = None
    \<and> GetDeleteSlots unmarshal (snd (SetDeleteSlots marshal obj S)) = S
    \<and> (S = {} \<longrightarrow> (case annotations (snd (SetDeleteSlots marshal obj S)) of
                     None \<Rightarrow> True
                   | Some anns \<Rightarrow> anns DeleteSlotsAnn = None))"
  using assms Get_after_Set [where S = S and marshal = marshal and unmarshal = unmarshal and obj = obj]
    Set_empty_removes_key [of marshal obj]
  by simp

theorem C10_write_then_read_witness:
  "jsonMarshal (List_Int32 {2, 4}) = Inr ''[2,4]''
   \<and> jsonUnmarshal ''[2,4]'' = Inr (List_Int32 {2, 4})
   \<and> annotations (snd (SetDeleteSlots jsonMarshal \<lparr>annotations = None\<rparr> {2, 4}))
       = Some [DeleteSlotsAnn \<mapsto> ''[2,4]'']
   \<and> GetDeleteSlots jsonUnmarshal (snd (SetDeleteSlots jsonMarshal \<lparr>annotations = None\<rparr> {2, 4}))
       = {2, 4}
   \<and> annotations (snd (SetDeleteSlots jsonMarshal
         \<lparr>annotations = Some [DeleteSlotsAnn \<mapsto> ''[7]'']\<rparr> {}))
       = Some Map.empty
   \<and> GetDeleteSlots jsonUnmarshal (snd (SetDeleteSlots jsonMarshal
         \<lparr>annotations = Some [DeleteSlotsAnn \<mapsto> ''[7]'']\<rparr> {}))
       = {}"
proof -
  have l: "List_Int32 {2, 4} = [2, 4]"
    by code_simp
  have m: "jsonMarshal [2, 4] = Inr ''[2,4]''"
    by code_simp
  have u: "jsonUnmarshal ''[2,4]'' = Inr [2, 4]"
    by code_simp
  have h: "({2, 4} :: int32 set) = {}
      \<or> (\<exists>b. jsonMarshal (List_Int32 {2, 4}) = Inr b \<and> jsonUnmarshal b = Inr (List_Int32 {2, 4}))"
    by (simp add: l m u)
  have h0: "({} :: int32 set) = {}
      \<or> (\<exists>b. jsonMarshal (List_Int32 {}) = Inr b \<and> jsonUnmarshal b = Inr (List_Int32 {}))"
    by simp
  have "annotations (snd (SetDeleteSlots jsonMarshal \<lparr>annotations = None\<rparr> {2, 4}))
          = Some [DeleteSlotsAnn \<mapsto> ''[2,4]'']"
    by (simp add: SetDeleteSlots_def l m)
  moreover have "annotations (snd (SetDeleteSlots jsonMarshal
         \<lparr>annotations = Some [DeleteSlotsAnn \<mapsto> ''[7]'']\<rparr> {})) = Some Map.empty"
    by (simp add: SetDeleteSlots_def)
  ultimately show ?thesis
    using h h0
      C10_write_then_read [where marshal = jsonMarshal and unmarshal = jsonUnmarshal
        and S = "{2, 4}" and obj = "\<lparr>annotations = None\<rparr>"]
      C10_write_then_read [where marshal = jsonMarshal and unmarshal = jsonUnmarshal
        and S = "{}" and obj = "\<lparr>annotations = Some [DeleteSlotsAnn \<mapsto> ''[7]'']\<rparr>"]
    by (simp add: l m u)
qed

section \<open>Maximum and minimum of the active ordinal set\<close>

lemma fold_maxStep:
  "fold maxStep xs m \<in> insert m (set xs) \<and> (\<forall>x\<in>insert m (set xs). x \<le>s fold maxStep xs m)"
proof (induction xs arbitrary: m)
  case Nil
  then show ?case by simp
next
  case (Cons k ks)
  have "m \<le>s maxStep k m" "k \<le>s maxStep k m" "maxStep k m \<in> {k, m}"
    by (auto simp: maxStep_def word_sle_eq word_sless_alt)
  with Cons.IH [of "maxStep k m"] show ?case
    by (auto intro: signed.order_trans)
qed

lemma fold_minStep:
  "fold minStep xs m \<in> insert m (set xs) \<and> (\<forall>x\<in>insert m (set xs). fold minStep xs m \<le>s x)"
proof (induction xs arbitrary: m)
  case Nil
  then show ?case by simp
next
  case (Cons k ks)
  have "minStep k m \<le>s m" "minStep k m \<le>s k" "minStep k m \<in> {k, m}"
    by (auto simp: minStep_def word_sle_eq word_sless_alt)
  with Cons.IH [of "minStep k m"] show ?case
    by (auto intro: signed.order_trans)
qed

lemma fold_maxStep_eq:
  assumes "x \<in> insert m (set xs)" and "\<forall>y\<in>insert m (set xs). y \<le>s x"
  shows "fold maxStep xs m = x"
proof -
  from fold_maxStep [of xs m] assms have "fold maxStep xs m \<le>s x" "x \<le>s fold maxStep xs m"
    by blast+
  then show ?thesis
    by (rule signed.order_antisym)
qed

lemma fold_minStep_eq:
  assumes "x \<in> insert m (set xs)" and "\<forall>y\<in>insert m (set xs). x \<le>s y"
  shows "fold minStep xs m = x"
proof -
  from fold_minStep [of xs m] assms have "fold minStep xs m \<le>s x" "x \<le>s fold minStep xs m"
    by blast+
  then show ?thesis
    by (rule signed.order_antisym)
qed

text \<open>The order in which the members are visited does not matter.\<close>

lemma maxLoop_order: "set xs = set ys \<Longrightarrow> fold maxStep xs m = fold maxStep ys m"
  using fold_maxStep [of ys m] by (intro fold_maxStep_eq) simp_all

lemma minLoop_order: "set xs = set ys \<Longrightarrow> fold minStep xs m = fold minStep ys m"
  using fold_minStep [of ys m] by (intro fold_minStep_eq) simp_all


lemma GetMinPodOrdinal_eq:
  assumes "x \<in> insert 2147483647 (GetPodOrdinals unmarshal replicas obj)"
    and "\<forall>y\<in>insert 2147483647 (GetPodOrdinals unmarshal replicas obj). x \<le>s y"
  shows "GetMinPodOrdinal unmarshal replicas obj = x"
  unfolding GetMinPodOrdinal_def using assms by (intro fold_minStep_eq) (simp_all add: set_List_Int32)

section \<open>The scale-out loop\<close>

lemma ucast_of_nat_64_32: "ucast (of_nat n :: 64 word) = (of_nat n :: int32)"
  by transfer simp

lemma handedOut_Suc:
  "handedOut m slots (Suc k) =
     (if m + of_nat (Suc k) \<notin> slots then insert (m + of_nat (Suc k)) (handedOut m slots k)
      else handedOut m slots k)"
proof -
  have "{1..Suc k} = insert (Suc k) {1..k}"
    by auto
  then have "(\<lambda>j. m + of_nat j) ` {1..Suc k}
               = insert (m + of_nat (Suc k)) ((\<lambda>j. m + of_nat j) ` {1..k})"
    by (simp only: image_insert)
  then show ?thesis
    by auto
qed

lemma scaleOutLoop_step:
  "scaleOutLoop m slots n (of_nat (Suc k)) (handedOut m slots k) =
     (if int (card (handedOut m slots k)) < n
      then scaleOutLoop m slots n (of_nat (Suc (Suc k))) (handedOut m slots (Suc k))
      else Some (of_nat (Suc k), handedOut m slots k))"
proof -
  have i: "(of_nat (Suc k) :: 64 word) + 1 = of_nat (Suc (Suc k))"
    by simp
  show ?thesis
    by (subst scaleOutLoop.simps) (simp only: ucast_of_nat_64_32 i handedOut_Suc [where m = m and slots = slots and k = k])
qed

lemma scaleOutLoop_run:
  assumes "\<forall>k<K. int (card (handedOut m slots k)) < n"
    and "\<not> int (card (handedOut m slots K)) < n"
  shows "k \<le> K \<Longrightarrow> scaleOutLoop m slots n (of_nat (Suc k)) (handedOut m slots k)
                      = Some (of_nat (Suc K), handedOut m slots K)"
proof (induction "K - k" arbitrary: k)
  case 0
  then have "k = K"
    by simp
  with assms(2) show ?case
    by (subst scaleOutLoop_step) (simp only: if_False)
next
  case (Suc d)
  then have "k < K" "d = K - Suc k" "Suc k \<le> K"
    by simp_all
  with assms(1) have "int (card (handedOut m slots k)) < n"
    by blast
  then have "scaleOutLoop m slots n (of_nat (Suc k)) (handedOut m slots k)
               = scaleOutLoop m slots n (of_nat (Suc (Suc k))) (handedOut m slots (Suc k))"
    by (subst scaleOutLoop_step) (simp only: if_True)
  also have "\<dots> = Some (of_nat (Suc K), handedOut m slots K)"
    using \<open>d = K - Suc k\<close> \<open>Suc k \<le> K\<close> by (rule Suc.hyps(1))
  finally show ?case .
qed

lemma scaleOutLoop_least:
  assumes "\<not> int (card (handedOut m slots K0)) < n"
  obtains K where "K \<le> K0"
    and "scaleOutLoop m slots n 1 {} = Some (of_nat (Suc K), handedOut m slots K)"
    and "\<forall>k<K. int (card (handedOut m slots k)) < n"
    and "\<not> int (card (handedOut m slots K)) < n"
proof -
  define K where "K = (LEAST K. \<not> int (card (handedOut m slots K)) < n)"
  have stop: "\<not> int (card (handedOut m slots K)) < n"
    unfolding K_def using assms by (rule LeastI)
  have le: "K \<le> K0"
    unfolding K_def using assms by (rule Least_le)
  have before: "\<forall>k<K. int (card (handedOut m slots k)) < n"
    unfolding K_def using not_less_Least by blast
  have "scaleOutLoop m slots n (of_nat (Suc 0)) (handedOut m slots 0)
          = Some (of_nat (Suc K), handedOut m slots K)"
    using before stop by (rule scaleOutLoop_run) simp
  then have "scaleOutLoop m slots n 1 {} = Some (of_nat (Suc K), handedOut m slots K)"
    by simp
  from le this before stop show thesis
    by (rule that)
qed

lemma card_handedOut_stop:
  assumes "0 < n" and "\<forall>k<K. int (card (handedOut m slots k)) < n"
    and "\<not> int (card (handedOut m slots K)) < n"
  shows "int (card (handedOut m slots K)) = n"
proof (cases K)
  case 0
  with assms(1,3) show ?thesis
    by simp
next
  case (Suc K')
  with assms(2) have "int (card (handedOut m slots K')) < n"
    by blast
  moreover have "card (handedOut m slots (Suc K')) \<le> Suc (card (handedOut m slots K'))"
    by (simp only: handedOut_Suc [where m = m and slots = slots and k = K'] card_insert_if finite split: if_splits) simp
  ultimately show ?thesis
    using assms(3) Suc by simp
qed

lemma inj_candidates:
  assumes "k \<le> 4294967296"
  shows "inj_on (\<lambda>j. m + of_nat j :: int32) {1..k}"
proof (rule inj_onI)
  fix a b
  assume a: "a \<in> {1..k}" and b: "b \<in> {1..k}" and "m + of_nat a = m + (of_nat b :: int32)"
  then have "(of_nat a :: int32) = of_nat b"
    by simp
  then have "a mod 4294967296 = b mod 4294967296"
    by (simp add: word_of_nat_eq_iff take_bit_eq_mod)
  with a b assms show "a = b"
    by (cases "a = 4294967296"; cases "b = 4294967296") auto
qed

lemma card_handedOut_ge:
  assumes "k \<le> 4294967296"
  shows "k - card slots \<le> card (handedOut m slots k)"
proof -
  have "card ((\<lambda>j. m + of_nat j :: int32) ` {1..k}) = k"
    using inj_candidates [OF assms, of m] by (simp add: card_image)
  then show ?thesis
    using diff_card_le_card_Diff [of slots "(\<lambda>j. m + of_nat j) ` {1..k}"] by simp
qed


lemma sint32_sub:
  assumes "- 2147483648 \<le> sint (a :: int32) - sint b" and "sint a - sint b \<le> 2147483647"
  shows "sint (a - b) = sint a - sint b"
proof -
  have eq: "a - b = word_of_int (sint a - sint b)"
    by simp
  have "sint (word_of_int (sint a - sint b) :: int32) = sint a - sint b"
    using assms by (intro sint32_of_int) simp_all
  then show ?thesis
    by (simp only: eq)
qed

lemma card_nonneg:
  assumes "\<forall>r\<in>R. (0 :: int32) \<le>s r"
  shows "card R \<le> 2147483648"
proof -
  have "R \<subseteq> insert 2147483647 {j. 0 \<le>s j \<and> j <s 2147483647}"
  proof
    fix r
    assume "r \<in> R"
    with assms have "0 \<le> sint r"
      by (simp add: word_sle_eq)
    moreover have "sint r = 2147483647 \<longleftrightarrow> r = 2147483647"
      using sint32_inj [of r 2147483647] by simp
    ultimately show "r \<in> insert 2147483647 {j. 0 \<le>s j \<and> j <s 2147483647}"
      using sint32_range [of r] by (auto simp: word_sle_eq word_sless_alt)
  qed
  then have "card R \<le> card (insert (2147483647 :: int32) {j. 0 \<le>s j \<and> j <s 2147483647})"
    by (intro card_mono) simp_all
  also have "\<dots> \<le> Suc (card {j :: int32. 0 \<le>s j \<and> j <s 2147483647})"
    by (simp add: card_insert_if)
  also have "\<dots> = 2147483648"
    by (simp only: card_below) simp
  finally show ?thesis .
qed




section \<open>Totality of the allocator\<close>

lemma scaleOut_returns:
  assumes "nat n + card slots \<le> 4294967296"
  obtains K where "K \<le> nat n + card slots"
    and "scaleOutLoop m slots n 1 {} = Some (of_nat (Suc K), handedOut m slots K)"
    and "int (card (handedOut m slots K)) = max 0 n"
proof -
  have "nat n + card slots - card slots \<le> card (handedOut m slots (nat n + card slots))"
    using assms by (rule card_handedOut_ge)
  then have "\<not> int (card (handedOut m slots (nat n + card slots))) < n"
    by simp
  then obtain K where K: "K \<le> nat n + card slots"
    "scaleOutLoop m slots n 1 {} = Some (of_nat (Suc K), handedOut m slots K)"
    "\<forall>k<K. int (card (handedOut m slots k)) < n" "\<not> int (card (handedOut m slots K)) < n"
    by (rule scaleOutLoop_least)
  have "int (card (handedOut m slots K)) = max 0 n"
  proof (cases "0 < n")
    case True
    then have "int (card (handedOut m slots K)) = n"
      using K(3,4) by (rule card_handedOut_stop)
    with True show ?thesis
      by simp
  next
    case False
    have "K = 0"
    proof (rule ccontr)
      assume "K \<noteq> 0"
      then have "0 < K"
        by simp
      with K(3) have "int (card (handedOut m slots 0)) < n"
        by blast
      with False show False
        by simp
    qed
    with False show ?thesis
      by simp
  qed
  with K(1,2) show thesis
    by (rule that)
qed





section \<open>Scale-out ordinals\<close>






section \<open>Negative cardinality\<close>

lemma List_Int32_empty: "List_Int32 {} = []"
  by (simp add: List_Int32_def)

lemma negative_replicas:
  assumes neg: "d <s 0" and R: "\<forall>r\<in>R. 0 \<le>s r"
  shows "GetMaxReplicaCountAndDeleteSlots d R = (d, {})"
    and "GetPodOrdinalsFromReplicasAndDeleteSlots d R = {}"
proof -
  have "\<forall>k\<in>set (List_Int32 R). d \<le>s k"
    using neg R by (auto simp: set_List_Int32 word_sle_eq word_sless_alt)
  then have "scanDeleteSlots (List_Int32 R) (d, R) = (d, R - set (List_Int32 R))"
    by (rule scan_all_dropped)
  then show g: "GetMaxReplicaCountAndDeleteSlots d R = (d, {})"
    by (simp add: GetMaxReplicaCountAndDeleteSlots_def set_List_Int32)
  have "{j. 0 \<le>s j \<and> j <s d} = {}"
    using neg by (auto simp: word_sle_eq word_sless_alt)
  then show "GetPodOrdinalsFromReplicasAndDeleteSlots d R = {}"
    by (simp add: GetPodOrdinals_eq g)
qed

text \<open>
  Claim C6, as amended. No allocator function rejects a negative desired cardinality: none
  validates its arguments or has an error result. For \<open>d < 0\<close> and a reservation set of
  non-negative ordinals, \<open>GetMaxReplicaCountAndDeleteSlots\<close> returns \<open>(d, {})\<close>,
  \<open>GetPodOrdinalsFromReplicasAndDeleteSlots\<close> the empty set, \<open>GetMaxPodOrdinal\<close> its start
  value \<open>-1\<close> and \<open>GetMinPodOrdinal\<close> its start value 2147483647.
  \<open>CalculateScaleOutPodOrdinal\<close> returns for every \<open>targetReplicas\<close>: the empty set when
  \<open>targetReplicas \<le> d\<close>, and in every case a set of unreserved ordinals whose size is the
  32-bit difference \<open>targetReplicas - d\<close>, or 0 when that difference is not positive.
\<close>

theorem C6_negative_cardinality:
  assumes "d <s 0" and "\<forall>r\<in>GetDeleteSlots unmarshal obj. 0 \<le>s r"
  shows "GetMaxReplicaCountAndDeleteSlots d (GetDeleteSlots unmarshal obj) = (d, {})
    \<and> GetPodOrdinalsFromReplicasAndDeleteSlots d (GetDeleteSlots unmarshal obj) = {}
    \<and> GetMaxPodOrdinal unmarshal d obj = - 1
    \<and> GetMinPodOrdinal unmarshal d obj = 2147483647
    \<and> (t \<le>s d \<longrightarrow> CalculateScaleOutPodOrdinal unmarshal d t obj = Some {})
    \<and> (\<exists>E. CalculateScaleOutPodOrdinal unmarshal d t obj = Some E
          \<and> E \<inter> GetDeleteSlots unmarshal obj = {}
          \<and> int (card E) = max 0 (sint (t - d)))"
proof -
  let ?slots = "GetDeleteSlots unmarshal obj"
  let ?n = "sint (t - d)"
  have g: "GetMaxReplicaCountAndDeleteSlots d ?slots = (d, {})"
    and p: "GetPodOrdinalsFromReplicasAndDeleteSlots d ?slots = {}"
    using assms by (rule negative_replicas)+
  have mx: "GetMaxPodOrdinal unmarshal d obj = - 1"
    by (simp add: GetMaxPodOrdinal_def GetPodOrdinals_def p List_Int32_empty)
  have mn: "GetMinPodOrdinal unmarshal d obj = 2147483647"
    by (simp add: GetMinPodOrdinal_def GetPodOrdinals_def p List_Int32_empty)
  have below: "t \<le>s d \<longrightarrow> CalculateScaleOutPodOrdinal unmarshal d t obj = Some {}"
    by (simp add: CalculateScaleOutPodOrdinal_def)
  have returns: "\<exists>E. CalculateScaleOutPodOrdinal unmarshal d t obj = Some E
      \<and> E \<inter> ?slots = {} \<and> int (card E) = max 0 ?n"
  proof (cases "t \<le>s d")
    case True
    have d: "sint d < 0" and td: "sint t \<le> sint d"
      using assms(1) True by (simp_all add: word_sle_eq word_sless_alt)
    have "?n = sint t - sint d"
      using d td sint32_range [of t] sint32_range [of d] by (intro sint32_sub) simp_all
    with td have "max 0 ?n = 0"
      by simp
    with True show ?thesis
      by (simp add: CalculateScaleOutPodOrdinal_def)
  next
    case False
    have "card ?slots \<le> 2147483648"
      using assms(2) by (rule card_nonneg)
    moreover have "?n \<le> 2147483647"
      using sint32_range [of "t - d"] by simp
    ultimately have "nat ?n + card ?slots \<le> 4294967296"
      by simp
    then obtain K where K: "K \<le> nat ?n + card ?slots"
      "scaleOutLoop (- 1) ?slots ?n 1 {} = Some (of_nat (Suc K), handedOut (- 1) ?slots K)"
      "int (card (handedOut (- 1) ?slots K)) = max 0 ?n"
      by (rule scaleOut_returns)
    have "CalculateScaleOutPodOrdinal unmarshal d t obj = Some (handedOut (- 1) ?slots K)"
      using False K(2) by (simp add: CalculateScaleOutPodOrdinal_def mx)
    moreover have "handedOut (- 1) ?slots K \<inter> ?slots = {}"
      by blast
    ultimately show ?thesis
      using K(3) by blast
  qed
  from g p mx mn below returns show ?thesis
    by (simp only: simp_thms)
qed

theorem C6_negative_cardinality_witness:
  "(- 2 :: int32) <s 0
   \<and> GetDeleteSlots jsonUnmarshal \<lparr>annotations = Some [DeleteSlotsAnn \<mapsto> ''[2,4]'']\<rparr> = {2, 4}
   \<and> (0 :: int32) \<le>s 2 \<and> (0 :: int32) \<le>s 4
   \<and> GetMaxReplicaCountAndDeleteSlots (- 2) {2, 4} = (- 2, {})
   \<and> GetPodOrdinalsFromReplicasAndDeleteSlots (- 2) {2, 4} = {}
   \<and> GetMaxPodOrdinal jsonUnmarshal (- 2) \<lparr>annotations = Some [DeleteSlotsAnn \<mapsto> ''[2,4]'']\<rparr> = - 1
   \<and> GetMinPodOrdinal jsonUnmarshal (- 2) \<lparr>annotations = Some [DeleteSlotsAnn \<mapsto> ''[2,4]'']\<rparr>
       = 2147483647
   \<and> CalculateScaleOutPodOrdinal jsonUnmarshal (- 2) 0
         \<lparr>annotations = Some [DeleteSlotsAnn \<mapsto> ''[2,4]'']\<rparr> = Some {0, 1}
   \<and> {0, 1} \<inter> {2, 4 :: int32} = {}
   \<and> int (card {0, 1 :: int32}) = max 0 (sint (0 - (- 2) :: int32))"
proof -
  let ?obj = "\<lparr>annotations = Some [DeleteSlotsAnn \<mapsto> ''[2,4]'']\<rparr>"
  have u: "jsonUnmarshal ''[2,4]'' = Inr [2, 4]"
    by code_simp
  have get: "GetDeleteSlots jsonUnmarshal ?obj = {2, 4}"
    by (simp add: GetDeleteSlots_def u)
  have h1: "(- 2 :: int32) <s 0"
    by (simp add: word_sless_alt)
  have h2: "\<forall>r\<in>GetDeleteSlots jsonUnmarshal ?obj. 0 \<le>s r"
    by (simp add: get word_sle_eq)
  have mx: "GetMaxPodOrdinal jsonUnmarshal (- 2) ?obj = - 1"
    using C6_negative_cardinality [OF h1 h2, of 0] by (simp only: simp_thms)
  have loop: "map_option snd (scaleOutLoop (- 1) {2, 4} 2 1 {}) = Some {0, 1}"
    by code_simp
  have "\<not> (0 :: int32) \<le>s - 2" and "sint (0 - (- 2) :: int32) = 2"
    by (simp_all add: word_sle_eq)
  then have calc: "CalculateScaleOutPodOrdinal jsonUnmarshal (- 2) 0 ?obj = Some {0, 1}"
    by (simp add: CalculateScaleOutPodOrdinal_def mx get loop)
  have "GetMaxReplicaCountAndDeleteSlots (- 2) {2, 4} = (- 2, {})
      \<and> GetPodOrdinalsFromReplicasAndDeleteSlots (- 2) {2, 4} = {}
      \<and> GetMaxPodOrdinal jsonUnmarshal (- 2) ?obj = - 1
      \<and> GetMinPodOrdinal jsonUnmarshal (- 2) ?obj = 2147483647"
    using C6_negative_cardinality [OF h1 h2, of 0] by (simp only: get simp_thms)
  with h1 get calc show ?thesis
    by (simp add: word_sle_eq)
qed

text \<open>
  For the cardinality \<open>-1\<close> every function returns an ordinary value: the boundary \<open>-1\<close>
  with nothing consumed, an empty active set, the sentinels \<open>-1\<close> and 2147483647, and for a
  scale-out to 1 the ordinals \<open>{0, 1}\<close>.
\<close>

theorem C6_no_rejection_counterexample:
  "(- 1 :: int32) <s 0
   \<and> GetMaxReplicaCountAndDeleteSlots (- 1) {} = (- 1, {})
   \<and> GetPodOrdinalsFromReplicasAndDeleteSlots (- 1) {} = {}
   \<and> GetMaxPodOrdinal jsonUnmarshal (- 1) \<lparr>annotations = None\<rparr> = - 1
   \<and> GetMinPodOrdinal jsonUnmarshal (- 1) \<lparr>annotations = None\<rparr> = 2147483647
   \<and> CalculateScaleOutPodOrdinal jsonUnmarshal (- 1) 1 \<lparr>annotations = None\<rparr> = Some {0, 1}"
proof -
  have get: "GetDeleteSlots jsonUnmarshal \<lparr>annotations = None\<rparr> = {}"
    by (simp add: GetDeleteSlots_def)
  have g: "GetMaxReplicaCountAndDeleteSlots (- 1) {} = (- 1, {})"
    by code_simp
  have p: "GetPodOrdinalsFromReplicasAndDeleteSlots (- 1) {} = {}"
    by code_simp
  have mx: "GetMaxPodOrdinal jsonUnmarshal (- 1) \<lparr>annotations = None\<rparr> = - 1"
    by (simp add: GetMaxPodOrdinal_def GetPodOrdinals_def get p List_Int32_empty)
  have mn: "GetMinPodOrdinal jsonUnmarshal (- 1) \<lparr>annotations = None\<rparr> = 2147483647"
    by (simp add: GetMinPodOrdinal_def GetPodOrdinals_def get p List_Int32_empty)
  have loop: "map_option snd (scaleOutLoop (- 1) {} 2 1 {}) = Some {0, 1}"
    by code_simp
  have "\<not> (1 :: int32) \<le>s - 1" and "sint (1 - (- 1) :: int32) = 2"
    by (simp_all add: word_sle_eq)
  then have "CalculateScaleOutPodOrdinal jsonUnmarshal (- 1) 1 \<lparr>annotations = None\<rparr> = Some {0, 1}"
    by (simp add: CalculateScaleOutPodOrdinal_def mx get loop)
  then show ?thesis
    using g p mx mn by (simp add: word_sless_alt)
qed

end
